theory Spec2Isabelle
  imports Main
begin

section \<open>Go strings and the library functions the package calls\<close>

text \<open>
  A Go string is a sequence of bytes, here a \<open>string\<close> (a list of 8-bit characters).
  The functions of package \<open>strings\<close> and \<open>strconv\<close> that the stack parser calls are
  written out below, each with the meaning the Go documentation gives it.
\<close>

definition newline :: char where
  "newline = CHR 0x0A"

definition tab :: char where
  "tab = CHR 0x09"

definition HasPrefix :: "string \<Rightarrow> string \<Rightarrow> bool" where
  "HasPrefix s p \<longleftrightarrow> take (length p) s = p"

definition HasSuffix :: "string \<Rightarrow> string \<Rightarrow> bool" where
  "HasSuffix s p \<longleftrightarrow> length p \<le> length s \<and> drop (length s - length p) s = p"

definition TrimPrefix :: "string \<Rightarrow> string \<Rightarrow> string" where
  "TrimPrefix s p = (if HasPrefix s p then drop (length p) s else s)"

definition TrimSuffix :: "string \<Rightarrow> string \<Rightarrow> string" where
  "TrimSuffix s p = (if HasSuffix s p then take (length s - length p) s else s)"

text \<open>\<open>strings.CutPrefix\<close> returns the rest and \<open>true\<close>, or the string and \<open>false\<close>: here
  \<open>Some rest\<close> or \<open>None\<close>.\<close>

definition CutPrefix :: "string \<Rightarrow> string \<Rightarrow> string option" where
  "CutPrefix s p = (if HasPrefix s p then Some (drop (length p) s) else None)"

text \<open>\<open>strings.Index\<close>: the index of the first occurrence, \<open>None\<close> for Go's \<open>-1\<close>.\<close>

fun Index :: "string \<Rightarrow> string \<Rightarrow> nat option" where
  "Index [] sub = (if sub = [] then Some 0 else None)"
| "Index (c # cs) sub =
     (if HasPrefix (c # cs) sub then Some 0 else map_option Suc (Index cs sub))"

text \<open>\<open>strings.LastIndexByte\<close>: the index of the last occurrence of a byte, \<open>None\<close> for \<open>-1\<close>.\<close>

fun LastIndexByte :: "string \<Rightarrow> char \<Rightarrow> nat option" where
  "LastIndexByte [] b = None"
| "LastIndexByte (c # cs) b =
     (case LastIndexByte cs b of
        Some i \<Rightarrow> Some (Suc i)
      | None \<Rightarrow> if c = b then Some 0 else None)"

text \<open>\<open>strings.SplitN s sep n\<close> for a non-empty separator: at most \<open>n\<close> pieces, the last
  one the unsplit rest; \<open>n = 0\<close> gives no piece at all.\<close>

fun SplitN :: "string \<Rightarrow> string \<Rightarrow> nat \<Rightarrow> string list" where
  "SplitN s sep 0 = []"
| "SplitN s sep (Suc 0) = [s]"
| "SplitN s sep (Suc (Suc n)) =
     (case Index s sep of
        None \<Rightarrow> [s]
      | Some i \<Rightarrow> take i s # SplitN (drop (i + length sep) s) sep (Suc n))"

definition is_digit :: "char \<Rightarrow> bool" where
  "is_digit c \<longleftrightarrow> c \<in> set ''0123456789''"

definition digit_val :: "char \<Rightarrow> nat" where
  "digit_val c = of_char c - 48"

definition digits_val :: "string \<Rightarrow> nat" where
  "digits_val ds = foldl (\<lambda>a c. 10 * a + digit_val c) 0 ds"

text \<open>
  \<open>strconv.Atoi\<close> on a 64-bit platform: an optional sign, then one or more decimal
  digits, and the value must fit a signed 64-bit \<open>int\<close>. The callers only test whether
  the error is nil, so a failure is \<open>None\<close>.
\<close>

definition Atoi :: "string \<Rightarrow> int option" where
  "Atoi s =
     (let neg = (s \<noteq> [] \<and> hd s = CHR ''-'');
          body = (if s \<noteq> [] \<and> (hd s = CHR ''-'' \<or> hd s = CHR ''+'') then tl s else s)
      in if body = [] \<or> \<not> list_all is_digit body then None
         else let v = (if neg then - int (digits_val body) else int (digits_val body))
              in if v < - (2 ^ 63) \<or> 2 ^ 63 - 1 < v then None else Some v)"

text \<open>Decimal formatting of an \<open>int\<close>, as the verbs \<open>%d\<close> and \<open>%v\<close> print it.\<close>

fun show_nat :: "nat \<Rightarrow> string" where
  "show_nat n =
     (if n < 10 then [''0123456789'' ! n]
      else show_nat (n div 10) @ [''0123456789'' ! (n mod 10)])"

declare show_nat.simps [simp del]

definition show_int :: "int \<Rightarrow> string" where
  "show_int i = (if i < 0 then CHR ''-'' # show_nat (nat (- i)) else show_nat (nat i))"

text \<open>
  \<open>sourceGoroutineRe.FindStringSubmatch\<close> for the pattern \<open>goroutine (\d+)\<close>: the leftmost
  place where the literal is followed by a digit, the digits taken greedily. The result
  is the whole match and the group, or \<open>None\<close> for Go's nil slice.
\<close>

fun FindStringSubmatch :: "string \<Rightarrow> string list option" where
  "FindStringSubmatch [] = None"
| "FindStringSubmatch (c # cs) =
     (let ds = takeWhile is_digit (drop 10 (c # cs))
      in if HasPrefix (c # cs) ''goroutine '' \<and> ds \<noteq> []
         then Some [''goroutine '' @ ds, ds]
         else FindStringSubmatch cs)"

section \<open>The data model of package stack\<close>

record Entry =
  FunctionCall :: string
  Location :: string
  IsSource :: bool

text \<open>The zero value \<open>Entry{}\<close>.\<close>

definition Entry_zero :: Entry where
  "Entry_zero = \<lparr>FunctionCall = [], Location = [], IsSource = False\<rparr>"

record Stack =
  id' :: int
  state :: string
  firstFunction :: string
  allFunctions :: "string set"
  fullStack :: string
  entries :: "Entry list"

text \<open>
  Errors are values. The constructors keep what each \<open>fmt.Errorf\<close> and \<open>errors.New\<close>
  call of the source is given; \<open>ParseHeader\<close> and \<open>ParseFunction\<close> are the two wrappers
  of \<open>parseStack\<close>, \<open>Joined\<close> is what \<open>errors.Join\<close> builds.
\<close>

datatype error =
    UnexpectedFormat string
  | BadGoroutineID string string
  | NoFunctionFound string
  | ParseHeader error
  | ParseFunction error
  | CleanupNotAllowed
  | Joined "error list"
  | FoundUnexpected string
  | ErrorfTemplate string

section \<open>Parsing one line\<close>

definition parseFuncName :: "string \<Rightarrow> error + (string \<times> bool)" where
  "parseFuncName line =
     (let (name, creator) =
        (case CutPrefix line ''created by '' of
           Some after \<Rightarrow>
             (case Index after '' in goroutine'' of
                Some idx \<Rightarrow> (take idx after, True)
              | None \<Rightarrow> (after, True))
         | None \<Rightarrow>
             (case LastIndexByte line (CHR ''('') of
                Some idx \<Rightarrow> (take idx line, False)
              | None \<Rightarrow> ([], False)))
      in if name = [] then Inl (NoFunctionFound line) else Inr (name, creator))"

definition parseGoStackHeader :: "string \<Rightarrow> error + (int \<times> string)" where
  "parseGoStackHeader line0 =
     (let line = TrimSuffix (TrimSuffix line0 '':'') [newline];
          parts = SplitN line '' '' 3
      in if length parts \<noteq> 3 then Inl (UnexpectedFormat line)
         else case Atoi (parts ! 1) of
                None \<Rightarrow> Inl (BadGoroutineID (parts ! 1) line)
              | Some n \<Rightarrow> Inr (n, TrimSuffix (TrimPrefix (parts ! 2) ''['') '']''))"

section \<open>The dependency graph (util.go)\<close>

text \<open>
  A Go map is a partial function. Go leaves the order in which \<open>range\<close> visits a map
  unspecified, and it may differ from one \<open>range\<close> statement to the next on the same
  map. Where the order of the visits shows in the result, the model takes the order as
  an argument: a list holding each key of the map once. \<open>BuildGraph\<close> takes its
  \<open>mapping\<close> as the list of the entries \<open>(item, source)\<close> in the order its first loop
  visits them. Its second and third loops set or sort one entry per visit, independently
  of the other entries, and are written as what they compute.
\<close>

type_synonym graph = "int \<rightharpoonup> int list"

definition BuildGraph :: "(int \<times> int) list \<Rightarrow> graph" where
  "BuildGraph mapping =
     (let graph1 = foldl (\<lambda>g (item, source).
                       g(source \<mapsto> (case g source of None \<Rightarrow> [] | Some cs \<Rightarrow> cs) @ [item]))
                     Map.empty mapping;
          allNodes = concat (map (\<lambda>(item, source). [item, source]) mapping);
          graph2 = foldl (\<lambda>g node. if g node = None then g(node \<mapsto> []) else g) graph1 allNodes
      in (\<lambda>node. map_option sort (graph2 node)))"

text \<open>\<open>findRoots\<close>: \<open>keys\<close> is the order in which \<open>range graph\<close> visits the nodes.\<close>

definition findRoots :: "int list \<Rightarrow> graph \<Rightarrow> int list" where
  "findRoots keys graph =
     (let isChild = set (concat (map (\<lambda>k. case graph k of None \<Rightarrow> [] | Some cs \<Rightarrow> cs) keys))
      in filter (\<lambda>node. node \<notin> isChild) keys)"

text \<open>The box-drawing connectors, as the UTF-8 bytes of the source's string literals.\<close>

definition last_connector :: string where
  "last_connector = [CHR 0xE2, CHR 0x94, CHR 0x94, CHR 0xE2, CHR 0x94, CHR 0x80,
                     CHR 0xE2, CHR 0x94, CHR 0x80, CHR '' '']"

definition mid_connector :: string where
  "mid_connector = [CHR 0xE2, CHR 0x94, CHR 0x9C, CHR 0xE2, CHR 0x94, CHR 0x80,
                    CHR 0xE2, CHR 0x94, CHR 0x80, CHR '' '']"

definition mid_indent :: string where
  "mid_indent = [CHR 0xE2, CHR 0x94, CHR 0x82, CHR '' '', CHR '' '', CHR '' '']"

definition defs_lookup :: "(int \<rightharpoonup> Entry) \<Rightarrow> int \<Rightarrow> Entry" where
  "defs_lookup defs node = (case defs node of None \<Rightarrow> Entry_zero | Some e \<Rightarrow> e)"

text \<open>
  \<open>printSubGraph\<close> is recursive with no bound in the source, so the model carries fuel:
  the number of nested calls still allowed. \<open>None\<close> says the fuel ran out; a call that is
  \<open>None\<close> for every amount of fuel does not return. The state is the text written so far
  and the set of the nodes marked \<open>visited\<close>. \<open>printChildren\<close> is the \<open>for\<close> loop over the
  children: a child is the last one when no sibling follows it.
\<close>

fun printSubGraph ::
    "nat \<Rightarrow> graph \<Rightarrow> (int \<rightharpoonup> Entry) \<Rightarrow> int \<Rightarrow> string \<Rightarrow> bool \<Rightarrow> string \<times> int set
      \<Rightarrow> (string \<times> int set) option"
  and printChildren ::
    "nat \<Rightarrow> graph \<Rightarrow> (int \<rightharpoonup> Entry) \<Rightarrow> int list \<Rightarrow> string \<Rightarrow> string \<times> int set
      \<Rightarrow> (string \<times> int set) option"
where
  "printSubGraph 0 graph defs node prefix isLast st = None"
| "printSubGraph (Suc fuel) graph defs node prefix isLast st =
     (let visited = insert node (snd st);
          buff = fst st @ prefix @ (if isLast then last_connector else mid_connector)
                   @ show_int node @ '' ('' @ FunctionCall (defs_lookup defs node) @ '')''
                   @ [newline];
          prefix' = prefix @ (if isLast then ''    '' else mid_indent)
      in case graph node of
           None \<Rightarrow> Some (buff, visited)
         | Some children \<Rightarrow> printChildren fuel graph defs children prefix' (buff, visited))"
| "printChildren fuel graph defs [] prefix st = Some st"
| "printChildren fuel graph defs (child # rest) prefix st =
     (case printSubGraph fuel graph defs child prefix (rest = []) st of
        None \<Rightarrow> None
      | Some st' \<Rightarrow> printChildren fuel graph defs rest prefix st')"

text \<open>The two loops of \<open>PrintGraph\<close>: over the roots, then over the nodes not yet visited.\<close>

fun printRoots ::
    "nat \<Rightarrow> graph \<Rightarrow> (int \<rightharpoonup> Entry) \<Rightarrow> int list \<Rightarrow> string \<times> int set \<Rightarrow> (string \<times> int set) option"
where
  "printRoots fuel graph defs [] st = Some st"
| "printRoots fuel graph defs (root # roots) st =
     (case printSubGraph fuel graph defs root [] True st of
        None \<Rightarrow> None
      | Some st' \<Rightarrow> printRoots fuel graph defs roots st')"

fun printUnvisited ::
    "nat \<Rightarrow> graph \<Rightarrow> (int \<rightharpoonup> Entry) \<Rightarrow> int list \<Rightarrow> string \<times> int set \<Rightarrow> (string \<times> int set) option"
where
  "printUnvisited fuel graph defs [] st = Some st"
| "printUnvisited fuel graph defs (node # nodes) st =
     (if node \<notin> snd st
      then (case printSubGraph fuel graph defs node [] True st of
              None \<Rightarrow> None
            | Some st' \<Rightarrow> printUnvisited fuel graph defs nodes st')
      else printUnvisited fuel graph defs nodes st)"

text \<open>
  \<open>PrintGraph\<close> appends to \<open>buff\<close>. \<open>keys1\<close> is the order of \<open>range graph\<close> in \<open>findRoots\<close>,
  \<open>keys2\<close> the order of \<open>range graph\<close> in the second loop of \<open>PrintGraph\<close>.
\<close>

definition PrintGraph ::
    "nat \<Rightarrow> int list \<Rightarrow> int list \<Rightarrow> string \<Rightarrow> graph \<Rightarrow> (int \<rightharpoonup> Entry) \<Rightarrow> string option"
where
  "PrintGraph fuel keys1 keys2 buff graph defs =
     (case printRoots fuel graph defs (findRoots keys1 graph) (buff, {}) of
        None \<Rightarrow> None
      | Some st \<Rightarrow> map_option fst (printUnvisited fuel graph defs keys2 st))"

text \<open>An order is one \<open>range\<close> can take when it holds every key of the map exactly once.\<close>

definition range_order :: "int list \<Rightarrow> graph \<Rightarrow> bool" where
  "range_order keys graph \<longleftrightarrow> distinct keys \<and> set keys = dom graph"

section \<open>The line scanner\<close>

text \<open>
  Modelled from the spec: the scanner (type \<open>scanner\<close> with \<open>newScanner\<close>, \<open>Scan\<close>,
  \<open>Text\<close>, \<open>Bytes\<close>, \<open>Unscan\<close> and \<open>Err\<close>) is called by the parser but its file is not
  among the sources. The spec's DumpScanner splits the dump into lines, hands them out one
  at a time without their terminator, and can push back exactly one line; reading an
  in-memory dump does not fail. The state is the lines not yet read, the line the last
  \<open>Scan\<close> returned, and whether that line has been pushed back.
\<close>

record scanner =
  pending :: "string list"
  current :: string
  stored :: bool

text \<open>Modelled from the spec: a scanner over the lines of a dump, nothing read yet.\<close>

definition newScanner :: "string list \<Rightarrow> scanner" where
  "newScanner ls = \<lparr>pending = ls, current = [], stored = False\<rparr>"

text \<open>Modelled from the spec: advance to the next line; a line that was pushed back is
  handed out again first. \<open>False\<close> at the end of the dump.\<close>

definition Scan :: "scanner \<Rightarrow> bool \<times> scanner" where
  "Scan sc =
     (if stored sc then (True, sc\<lparr>stored := False\<rparr>)
      else case pending sc of
             [] \<Rightarrow> (False, sc)
           | l # ls \<Rightarrow> (True, sc\<lparr>pending := ls, current := l\<rparr>))"

text \<open>Modelled from the spec: the current line as text, and as raw bytes.\<close>

definition Text :: "scanner \<Rightarrow> string" where
  "Text sc = current sc"

definition Bytes :: "scanner \<Rightarrow> string" where
  "Bytes sc = current sc"

text \<open>Modelled from the spec: push the current line back (one line deep).\<close>

definition Unscan :: "scanner \<Rightarrow> scanner" where
  "Unscan sc = sc\<lparr>stored := True\<rparr>"

text \<open>Modelled from the spec: the read failure of the underlying stream; an in-memory dump
  has none.\<close>

definition Err :: "scanner \<Rightarrow> error option" where
  "Err sc = None"

text \<open>The lines a scanner will still hand out, the pushed-back one first.\<close>

definition unread :: "scanner \<Rightarrow> string list" where
  "unread sc = (if stored sc then current sc # pending sc else pending sc)"

section \<open>Parsing one stack\<close>

text \<open>The local variables of \<open>parseStack\<close> that its loop updates.\<close>

record locals =
  firstFunction' :: string
  fullStack' :: string
  funcs :: "string set"
  entries' :: "Entry list"
  currentEntry :: Entry

definition locals_init :: locals where
  "locals_init = \<lparr>firstFunction' = [], fullStack' = [], funcs = {}, entries' = [],
                   currentEntry = Entry_zero\<rparr>"

text \<open>What the loop records for a call line once \<open>parseFuncName\<close> has succeeded.\<close>

definition recordCall :: "locals \<Rightarrow> string \<Rightarrow> string \<Rightarrow> bool \<Rightarrow> locals" where
  "recordCall v line funcName creator =
     (let v2 = v\<lparr>currentEntry := (currentEntry v)\<lparr>FunctionCall := line\<rparr>\<rparr>
      in if \<not> creator
         then v2\<lparr>funcs := insert funcName (funcs v2),
                 firstFunction' :=
                   (if firstFunction' v2 = [] then funcName else firstFunction' v2)\<rparr>
         else v2\<lparr>currentEntry := (currentEntry v2)\<lparr>IsSource := True\<rparr>\<rparr>)"

text \<open>The look-ahead for the location line: taken if it starts with a tab, pushed back
  otherwise.\<close>

definition scanLocation :: "scanner \<Rightarrow> locals \<Rightarrow> locals \<times> scanner" where
  "scanLocation sc v =
     (case Scan sc of
        (False, sc') \<Rightarrow> (v, sc')
      | (True, sc') \<Rightarrow>
          let bs = Bytes sc'
          in if length bs > 0 \<and> hd bs = tab
             then let e = (currentEntry v)\<lparr>Location := bs\<rparr>
                  in (v\<lparr>currentEntry := e, entries' := entries' v @ [e],
                        fullStack' := fullStack' v @ bs @ [newline]\<rparr>, sc')
             else (v, Unscan sc'))"

lemma Scan_unread: "Scan sc = (True, sc') \<Longrightarrow> length (unread sc') < length (unread sc)"
  by (auto simp: Scan_def unread_def split: if_splits list.splits)

lemma scanLocation_unread:
  "scanLocation sc v = (v', sc') \<Longrightarrow> length (unread sc') \<le> length (unread sc)"
  by (auto simp: scanLocation_def Scan_def Unscan_def unread_def Let_def Bytes_def
      split: if_splits list.splits prod.splits bool.splits)

text \<open>The loop of \<open>parseStack\<close>. It returns the error of a bad call line, or the locals
  when the stack has ended, and the scanner as it leaves it.\<close>

function parseLoop :: "scanner \<Rightarrow> locals \<Rightarrow> (error + locals) \<times> scanner" where
  "parseLoop sc v =
     (case Scan sc of
        (False, sc1) \<Rightarrow> (Inr v, sc1)
      | (True, sc1) \<Rightarrow>
          let line = Text sc1
          in if HasPrefix line ''goroutine '' then (Inr v, Unscan sc1)
             else
               let v1 = v\<lparr>fullStack' := fullStack' v @ line @ [newline]\<rparr>
               in if length line = 0 then parseLoop sc1 v1
                  else if HasPrefix line ''...'' \<and> HasSuffix line '' frames elided...''
                  then parseLoop sc1 v1
                  else
                    case parseFuncName line of
                      Inl err \<Rightarrow> (Inl (ParseFunction err), sc1)
                    | Inr (funcName, creator) \<Rightarrow>
                        let (v4, sc2) = scanLocation sc1 (recordCall v1 line funcName creator)
                        in if creator then (Inr v4, sc2) else parseLoop sc2 v4)"
  by pat_completeness auto
termination
  apply (relation "measure (\<lambda>(sc, v). length (unread sc))")
     apply simp
    apply (auto dest!: Scan_unread [OF sym] scanLocation_unread [OF sym])
  done

declare parseLoop.simps [simp del]

definition parseStack :: "scanner \<Rightarrow> string \<Rightarrow> (error + Stack) \<times> scanner" where
  "parseStack sc line =
     (case parseGoStackHeader line of
        Inl err \<Rightarrow> (Inl (ParseHeader err), sc)
      | Inr (n, st) \<Rightarrow>
          (case parseLoop sc locals_init of
             (Inl err, sc') \<Rightarrow> (Inl err, sc')
           | (Inr v, sc') \<Rightarrow>
               (Inr \<lparr>id' = n, state = st, firstFunction = firstFunction' v,
                     allFunctions = funcs v, fullStack = fullStack' v,
                     entries = entries' v\<rparr>, sc')))"

section \<open>The loop of parseStack as a function of the unread lines\<close>

text \<open>
  The parser reads the scanner only through \<open>Scan\<close>, \<open>Text\<close>, \<open>Bytes\<close> and \<open>Unscan\<close>, so what
  it does depends on the lines the scanner will still hand out and on nothing else. This
  section states that: \<open>lines_loop\<close> is the loop of \<open>parseStack\<close> run on a list of lines,
  returning the lines left over, and \<open>parseLoop_lines\<close> proves that \<open>parseLoop\<close> computes
  the same result and leaves exactly those lines unread. The properties of the parser are
  proved on the list and carried over.
\<close>

definition is_header :: "string \<Rightarrow> bool" where
  "is_header l \<longleftrightarrow> HasPrefix l ''goroutine ''"

definition is_location :: "string \<Rightarrow> bool" where
  "is_location l \<longleftrightarrow> length l > 0 \<and> hd l = tab"

definition is_skipped :: "string \<Rightarrow> bool" where
  "is_skipped l \<longleftrightarrow> length l = 0 \<or> (HasPrefix l ''...'' \<and> HasSuffix l '' frames elided...'')"

definition at_line :: "string \<Rightarrow> string list \<Rightarrow> scanner" where
  "at_line l ls = \<lparr>pending = ls, current = l, stored = False\<rparr>"

lemma Scan_nil: "unread sc = [] \<Longrightarrow> Scan sc = (False, sc)"
  by (auto simp: Scan_def unread_def split: if_splits)

lemma Scan_cons: "unread sc = l # ls \<Longrightarrow> Scan sc = (True, at_line l ls)"
  by (auto simp: Scan_def unread_def at_line_def split: if_splits list.splits)

lemma at_line_simps [simp]:
  "unread (at_line l ls) = ls"
  "Text (at_line l ls) = l"
  "Bytes (at_line l ls) = l"
  "unread (Unscan (at_line l ls)) = l # ls"
  by (simp_all add: unread_def at_line_def Text_def Bytes_def Unscan_def)

definition addLocation :: "locals \<Rightarrow> string \<Rightarrow> locals" where
  "addLocation v bs =
     v\<lparr>currentEntry := (currentEntry v)\<lparr>Location := bs\<rparr>,
       entries' := entries' v @ [(currentEntry v)\<lparr>Location := bs\<rparr>],
       fullStack' := fullStack' v @ bs @ [newline]\<rparr>"

lemma scanLocation_nil: "unread sc = [] \<Longrightarrow> scanLocation sc v = (v, sc)"
  by (simp add: scanLocation_def Scan_nil)

lemma scanLocation_cons:
  "unread sc = t # ts \<Longrightarrow>
   scanLocation sc v =
     (if is_location t then (addLocation v t, at_line t ts) else (v, Unscan (at_line t ts)))"
  by (simp add: scanLocation_def Scan_cons Let_def is_location_def addLocation_def)

lemma parseLoop_nil: "unread sc = [] \<Longrightarrow> parseLoop sc v = (Inr v, sc)"
  by (simp add: parseLoop.simps [of sc] Scan_nil)

lemma parseLoop_cons:
  "unread sc = l # ls \<Longrightarrow>
   parseLoop sc v =
     (if is_header l then (Inr v, Unscan (at_line l ls))
      else if is_skipped l
      then parseLoop (at_line l ls) (v\<lparr>fullStack' := fullStack' v @ l @ [newline]\<rparr>)
      else case parseFuncName l of
             Inl err \<Rightarrow> (Inl (ParseFunction err), at_line l ls)
           | Inr (funcName, creator) \<Rightarrow>
               let (v4, sc2) = scanLocation (at_line l ls)
                     (recordCall (v\<lparr>fullStack' := fullStack' v @ l @ [newline]\<rparr>) l funcName creator)
               in if creator then (Inr v4, sc2) else parseLoop sc2 v4)"
  by (simp add: parseLoop.simps [of sc] Scan_cons Let_def is_header_def is_skipped_def
      split: sum.splits)

definition terminated :: "string list \<Rightarrow> string" where
  "terminated ls = concat (map (\<lambda>l. l @ [newline]) ls)"

lemma fullStack_recordCall [simp]: "fullStack' (recordCall v l f c) = fullStack' v"
  by (simp add: recordCall_def Let_def)

lemma fullStack_addLocation [simp]: "fullStack' (addLocation v t) = fullStack' v @ t @ [newline]"
  by (simp add: addLocation_def)

lemma not_header_location: "is_location t \<Longrightarrow> \<not> is_header t"
  by (cases t) (auto simp: is_header_def is_location_def HasPrefix_def tab_def)

definition takeLocation :: "locals \<Rightarrow> string list \<Rightarrow> locals \<times> string list" where
  "takeLocation v ls =
     (case ls of
        [] \<Rightarrow> (v, [])
      | t # ts \<Rightarrow> if is_location t then (addLocation v t, ts) else (v, ls))"

lemma takeLocation_length: "takeLocation v ls = (v', ls') \<Longrightarrow> length ls' \<le> length ls"
  by (auto simp: takeLocation_def split: list.splits if_splits)

function lines_loop :: "string list \<Rightarrow> locals \<Rightarrow> (error + locals) \<times> string list" where
  "lines_loop [] v = (Inr v, [])"
| "lines_loop (l # ls) v =
     (if is_header l then (Inr v, l # ls)
      else if is_skipped l
      then lines_loop ls (v\<lparr>fullStack' := fullStack' v @ l @ [newline]\<rparr>)
      else case parseFuncName l of
             Inl err \<Rightarrow> (Inl (ParseFunction err), ls)
           | Inr (funcName, creator) \<Rightarrow>
               let (v4, rest) = takeLocation
                     (recordCall (v\<lparr>fullStack' := fullStack' v @ l @ [newline]\<rparr>) l funcName creator) ls
               in if creator then (Inr v4, rest) else lines_loop rest v4)"
  by pat_completeness auto
termination
  apply (relation "measure (\<lambda>(ls, v). length ls)")
     apply simp
    apply simp
  apply (auto dest!: takeLocation_length [OF sym])
  done

lemma scanLocation_takeLocation:
  "fst (scanLocation (at_line l ls) v) = fst (takeLocation v ls) \<and>
   unread (snd (scanLocation (at_line l ls) v)) = snd (takeLocation v ls)"
  by (cases ls) (simp_all add: scanLocation_nil scanLocation_cons takeLocation_def)

lemma parseLoop_lines:
  "fst (parseLoop sc v) = fst (lines_loop (unread sc) v) \<and>
   unread (snd (parseLoop sc v)) = snd (lines_loop (unread sc) v)"
proof (induction "length (unread sc)" arbitrary: sc v rule: less_induct)
  case less
  show ?case
  proof (cases "unread sc")
    case Nil
    then show ?thesis by (simp add: parseLoop_nil)
  next
    case (Cons l ls)
    note step = parseLoop_cons [OF Cons, of v]
    let ?v1 = "v\<lparr>fullStack' := fullStack' v @ l @ [newline]\<rparr>"
    have ih: "\<And>sc' v'. length (unread sc') \<le> length ls \<Longrightarrow>
        fst (parseLoop sc' v') = fst (lines_loop (unread sc') v') \<and>
        unread (snd (parseLoop sc' v')) = snd (lines_loop (unread sc') v')"
      by (rule less) (simp add: Cons)
    consider (header) "is_header l"
      | (skip) "\<not> is_header l" "is_skipped l"
      | (bad) err where "\<not> is_header l" "\<not> is_skipped l" "parseFuncName l = Inl err"
      | (call) f c where "\<not> is_header l" "\<not> is_skipped l" "parseFuncName l = Inr (f, c)"
      by (cases "parseFuncName l") auto
    then show ?thesis
    proof cases
      case header
      then show ?thesis by (simp add: step Cons)
    next
      case skip
      then show ?thesis using ih [of "at_line l ls" ?v1] by (simp add: step Cons)
    next
      case bad
      then show ?thesis by (simp add: step Cons)
    next
      case call
      let ?v3 = "recordCall ?v1 l f c"
      obtain v4 sc2 where sl: "scanLocation (at_line l ls) ?v3 = (v4, sc2)"
        by (cases "scanLocation (at_line l ls) ?v3")
      with scanLocation_takeLocation [of l ls ?v3]
      have tl: "takeLocation ?v3 ls = (v4, unread sc2)"
        by (cases "takeLocation ?v3 ls") simp
      have "length (unread sc2) \<le> length ls"
        using takeLocation_length [OF tl] .
      from ih [OF this, of v4] show ?thesis
        using call by (simp add: step Cons sl tl)
    qed
  qed
qed

declare lines_loop.simps(2) [simp del]

lemma lines_loop_header: "is_header l \<Longrightarrow> lines_loop (l # ls) v = (Inr v, l # ls)"
  by (simp add: lines_loop.simps)

lemma lines_loop_skip:
  "\<not> is_header l \<Longrightarrow> is_skipped l \<Longrightarrow>
   lines_loop (l # ls) v = lines_loop ls (v\<lparr>fullStack' := fullStack' v @ l @ [newline]\<rparr>)"
  by (simp add: lines_loop.simps)

lemma lines_loop_bad:
  "\<not> is_header l \<Longrightarrow> \<not> is_skipped l \<Longrightarrow> parseFuncName l = Inl err \<Longrightarrow>
   lines_loop (l # ls) v = (Inl (ParseFunction err), ls)"
  by (simp add: lines_loop.simps)

lemma lines_loop_creator:
  "\<not> is_header l \<Longrightarrow> \<not> is_skipped l \<Longrightarrow> parseFuncName l = Inr (f, True) \<Longrightarrow>
   lines_loop (l # ls) v =
     (Inr (fst (takeLocation
        (recordCall (v\<lparr>fullStack' := fullStack' v @ l @ [newline]\<rparr>) l f True) ls)),
      snd (takeLocation
        (recordCall (v\<lparr>fullStack' := fullStack' v @ l @ [newline]\<rparr>) l f True) ls))"
  by (simp add: lines_loop.simps split: prod.splits)

lemma lines_loop_call:
  "\<not> is_header l \<Longrightarrow> \<not> is_skipped l \<Longrightarrow> parseFuncName l = Inr (f, False) \<Longrightarrow>
   lines_loop (l # ls) v =
     lines_loop
       (snd (takeLocation
         (recordCall (v\<lparr>fullStack' := fullStack' v @ l @ [newline]\<rparr>) l f False) ls))
       (fst (takeLocation
         (recordCall (v\<lparr>fullStack' := fullStack' v @ l @ [newline]\<rparr>) l f False) ls))"
  by (simp add: lines_loop.simps split: prod.splits)

text \<open>A proof rule: the five ways one round of the loop can go.\<close>

lemma lines_loop_cases [case_names eof header skip bad creator call]:
  assumes "\<And>v. P [] v"
    and "\<And>l ls v. is_header l \<Longrightarrow> P (l # ls) v"
    and "\<And>l ls v. \<not> is_header l \<Longrightarrow> is_skipped l \<Longrightarrow>
           P ls (v\<lparr>fullStack' := fullStack' v @ l @ [newline]\<rparr>) \<Longrightarrow> P (l # ls) v"
    and "\<And>l ls v err. \<not> is_header l \<Longrightarrow> \<not> is_skipped l \<Longrightarrow> parseFuncName l = Inl err \<Longrightarrow>
           P (l # ls) v"
    and "\<And>l ls v f. \<not> is_header l \<Longrightarrow> \<not> is_skipped l \<Longrightarrow> parseFuncName l = Inr (f, True) \<Longrightarrow>
           P (l # ls) v"
    and "\<And>l ls v f v4 rest. \<not> is_header l \<Longrightarrow> \<not> is_skipped l \<Longrightarrow>
           parseFuncName l = Inr (f, False) \<Longrightarrow>
           takeLocation (recordCall (v\<lparr>fullStack' := fullStack' v @ l @ [newline]\<rparr>) l f False) ls
             = (v4, rest) \<Longrightarrow>
           P rest v4 \<Longrightarrow> P (l # ls) v"
  shows "P ls v"
proof (induction ls v rule: lines_loop.induct)
  case (1 v)
  show ?case by (rule assms(1))
next
  case (2 l ls v)
  let ?v1 = "v\<lparr>fullStack' := fullStack' v @ l @ [newline]\<rparr>"
  consider (header) "is_header l"
    | (skip) "\<not> is_header l" "is_skipped l"
    | (bad) err where "\<not> is_header l" "\<not> is_skipped l" "parseFuncName l = Inl err"
    | (creator) f where "\<not> is_header l" "\<not> is_skipped l" "parseFuncName l = Inr (f, True)"
    | (call) f where "\<not> is_header l" "\<not> is_skipped l" "parseFuncName l = Inr (f, False)"
    by (cases "parseFuncName l") auto
  then show ?case
  proof cases
    case header
    then show ?thesis by (rule assms(2))
  next
    case skip
    then show ?thesis using 2(1) by (intro assms(3)) auto
  next
    case bad
    then show ?thesis by (rule assms(4))
  next
    case creator
    then show ?thesis by (rule assms(5))
  next
    case call
    obtain v4 rest where tl: "takeLocation (recordCall ?v1 l f False) ls = (v4, rest)"
      by (cases "takeLocation (recordCall ?v1 l f False) ls")
    have "P rest v4"
      using 2(2) [OF call(1) call(2) call(3) refl tl [symmetric]] by simp
    with call tl show ?thesis by (intro assms(6))
  qed
qed

lemma takeLocation_cases:
  obtains (none) "takeLocation v ls = (v, ls)" "ls = [] \<or> \<not> is_location (hd ls)"
  | (loc) t ts where "ls = t # ts" "is_location t" "takeLocation v ls = (addLocation v t, ts)"
  by (cases ls) (auto simp: takeLocation_def)

lemma lines_loop_consumes:
  "\<exists>consumed. ls = consumed @ snd (lines_loop ls v) \<and>
     list_all (\<lambda>l. \<not> is_header l) consumed \<and>
     (\<forall>v'. fst (lines_loop ls v) = Inr v' \<longrightarrow>
            fullStack' v' = fullStack' v @ terminated consumed)"
proof (induction ls v rule: lines_loop_cases)
  case (eof v)
  then show ?case by (simp add: terminated_def)
next
  case (header l ls v)
  then show ?case by (simp add: lines_loop_header terminated_def)
next
  case (skip l ls v)
  let ?v1 = "v\<lparr>fullStack' := fullStack' v @ l @ [newline]\<rparr>"
  from skip(3) obtain consumed where
    c0: "ls = consumed @ snd (lines_loop ls ?v1)"
      "list_all (\<lambda>l. \<not> is_header l) consumed"
      "\<forall>v'. fst (lines_loop ls ?v1) = Inr v' \<longrightarrow>
          fullStack' v' = fullStack' ?v1 @ terminated consumed"
    by blast
  have c: "consumed @ snd (lines_loop ls ?v1) = ls"
      "list_all (\<lambda>l. \<not> is_header l) consumed"
      "\<forall>v'. fst (lines_loop ls ?v1) = Inr v' \<longrightarrow>
          fullStack' v' = fullStack' v @ l @ [newline] @ terminated consumed"
    using c0 by simp_all
  show ?case
    unfolding lines_loop_skip [OF skip(1,2)]
    by (rule exI [of _ "l # consumed"]) (use c skip(1) in \<open>simp add: terminated_def\<close>)
next
  case (bad l ls v err)
  then show ?case
    by (simp add: lines_loop_bad terminated_def exI [of _ "[l]"])
next
  case (creator l ls v f)
  show ?case
    unfolding lines_loop_creator [OF creator]
    by (cases rule: takeLocation_cases
          [of "recordCall (v\<lparr>fullStack' := fullStack' v @ l @ [newline]\<rparr>) l f True" ls])
       (use creator in \<open>auto simp: terminated_def not_header_location
          intro: exI [of _ "[l]"] exI [of _ "[l, hd ls]"]\<close>)
next
  case (call l ls v f v4 rest)
  let ?v3 = "recordCall (v\<lparr>fullStack' := fullStack' v @ l @ [newline]\<rparr>) l f False"
  from call(5) obtain consumed where
    c0: "rest = consumed @ snd (lines_loop rest v4)"
      "list_all (\<lambda>l. \<not> is_header l) consumed"
      "\<forall>v'. fst (lines_loop rest v4) = Inr v' \<longrightarrow>
          fullStack' v' = fullStack' v4 @ terminated consumed"
    by blast
  have c: "consumed @ snd (lines_loop rest v4) = rest"
      "list_all (\<lambda>l. \<not> is_header l) consumed"
      "\<forall>v'. fst (lines_loop rest v4) = Inr v' \<longrightarrow>
          fullStack' v' = fullStack' v4 @ terminated consumed"
    using c0 by simp_all
  have eq: "lines_loop (l # ls) v = lines_loop rest v4"
    by (simp add: lines_loop_call [OF call(1-3)] call(4))
  show ?case
  proof (cases rule: takeLocation_cases [of ?v3 ls])
    case none
    with call(4) have "v4 = ?v3" "rest = ls" by simp_all
    then show ?thesis
      unfolding eq
      by (intro exI [of _ "l # consumed"]) (use c call(1) in \<open>simp add: terminated_def\<close>)
  next
    case (loc t ts)
    with call(4) have "v4 = addLocation ?v3 t" "rest = ts" by simp_all
    then show ?thesis
      unfolding eq
      by (intro exI [of _ "l # t # consumed"])
         (use c call(1) loc not_header_location [of t] in \<open>simp add: terminated_def\<close>)
  qed
qed

lemma lines_loop_length: "length (snd (lines_loop ls v)) \<le> length ls"
  using lines_loop_consumes [of ls v] by (metis le_add2 length_append)

lemma parseLoop_unread: "length (unread (snd (parseLoop sc v))) \<le> length (unread sc)"
  by (simp add: parseLoop_lines lines_loop_length)

lemma parseStack_unread:
  "parseStack sc line = (r, sc') \<Longrightarrow> length (unread sc') \<le> length (unread sc)"
  using parseLoop_unread [of sc locals_init]
  by (auto simp: parseStack_def split: sum.splits prod.splits)

section \<open>Parsing a dump\<close>

text \<open>The parser: its scanner, the stacks parsed so far and the errors met so far.\<close>

record stackParser =
  scan :: scanner
  stacks :: "Stack list"
  errors :: "error list"

definition newStackParser :: "string list \<Rightarrow> stackParser" where
  "newStackParser ls = \<lparr>scan = newScanner ls, stacks = [], errors = []\<rparr>"

text \<open>The \<open>for p.scan.Scan()\<close> loop of \<open>Parse\<close>.\<close>

function Parse_loop :: "stackParser \<Rightarrow> stackParser" where
  "Parse_loop p =
     (case Scan (scan p) of
        (False, sc) \<Rightarrow> p\<lparr>scan := sc\<rparr>
      | (True, sc) \<Rightarrow>
          let line = Text sc
          in if HasPrefix line ''goroutine ''
             then (case parseStack sc line of
                     (Inl err, sc') \<Rightarrow> Parse_loop (p\<lparr>scan := sc', errors := errors p @ [err]\<rparr>)
                   | (Inr stack, sc') \<Rightarrow> Parse_loop (p\<lparr>scan := sc', stacks := stacks p @ [stack]\<rparr>))
             else Parse_loop (p\<lparr>scan := sc\<rparr>))"
  by pat_completeness auto
termination
  apply (relation "measure (\<lambda>p. length (unread (scan p)))")
     apply simp
    apply (auto dest!: Scan_unread [OF sym] parseStack_unread [OF sym])
  done

declare Parse_loop.simps [simp del]

text \<open>\<open>errors.Join\<close> drops the nil errors and returns nil when none is left.\<close>

definition Join :: "error option list \<Rightarrow> error option" where
  "Join errs =
     (let es = concat (map (\<lambda>e. case e of None \<Rightarrow> [] | Some x \<Rightarrow> [x]) errs)
      in if es = [] then None else Some (Joined es))"

definition Parse :: "stackParser \<Rightarrow> Stack list \<times> error option" where
  "Parse p =
     (let p' = Parse_loop p;
          errs = map Some (errors p') @ [Err (scan p')]
      in (stacks p', Join errs))"

text \<open>\<open>ParseStack\<close>, on the lines of the buffer.\<close>

definition ParseStack :: "string list \<Rightarrow> Stack list \<times> error option" where
  "ParseStack buf = Parse (newStackParser buf)"

section \<open>The methods of Stack\<close>

text \<open>The loop of \<open>SourceGoroutineID\<close> over the entries; \<open>-1\<close> when no source entry gives an
  id.\<close>

fun SourceGoroutineID_entries :: "Entry list \<Rightarrow> int" where
  "SourceGoroutineID_entries [] = - 1"
| "SourceGoroutineID_entries (entry # es) =
     (if IsSource entry
      then (case FindStringSubmatch (FunctionCall entry) of
              None \<Rightarrow> SourceGoroutineID_entries es
            | Some matches \<Rightarrow>
                if length matches = 2
                then (case Atoi (matches ! 1) of
                        Some n \<Rightarrow> n
                      | None \<Rightarrow> SourceGoroutineID_entries es)
                else SourceGoroutineID_entries es)
      else SourceGoroutineID_entries es)"

definition SourceGoroutineID :: "Stack \<Rightarrow> int" where
  "SourceGoroutineID s = SourceGoroutineID_entries (entries s)"

definition SourceEntry :: "Stack \<Rightarrow> Entry" where
  "SourceEntry s = (case find IsSource (entries s) of Some entry \<Rightarrow> entry | None \<Rightarrow> Entry_zero)"

text \<open>\<open>String\<close>: the \<open>Sprintf\<close> of the source, with \<open>%v\<close> of the id in decimal.\<close>

definition String :: "Stack \<Rightarrow> string" where
  "String s =
     ''Goroutine '' @ show_int (id' s) @ '' in state '' @ state s @ '', with ''
       @ firstFunction s @ '' on top of the stack:'' @ [newline] @ fullStack s"

text \<open>
  The colours come from the aurora library, which is not part of this repository, and
  \<open>strings.TrimSpace\<close> trims Unicode white space: both are arguments of the model.
  \<open>paint c s\<close> is the text \<open>Colors.c(s).String()\<close>.
\<close>

datatype colour = BrightBlue | BrightYellow | BrightRed | BrightGreen | BrightMagenta

record lib =
  paint :: "colour \<Rightarrow> string \<Rightarrow> string"
  TrimSpace :: "string \<Rightarrow> string"

text \<open>A panic of the Go runtime is a value too.\<close>

datatype panic = IndexOutOfRange nat nat | ParseFailed error

text \<open>The last loop of \<open>PrettyPrint\<close>: an entry is highlighted when some filter accepts
  the stack.\<close>

definition printEntry :: "lib \<Rightarrow> (Stack \<Rightarrow> bool) list \<Rightarrow> Stack \<Rightarrow> Entry \<Rightarrow> string" where
  "printEntry L filter_fns s entry =
     (if list_ex (\<lambda>f. f s) filter_fns
      then paint L BrightGreen (FunctionCall entry) @ [newline]
           @ paint L BrightGreen (Location entry) @ [newline]
      else FunctionCall entry @ [newline] @ Location entry @ [newline])"

text \<open>\<open>PrettyPrint\<close>. Indexing the submatches at 1 panics when the pattern did not match
  (the slice is nil).\<close>

definition PrettyPrint :: "lib \<Rightarrow> (Stack \<Rightarrow> bool) list \<Rightarrow> Stack \<Rightarrow> panic + string" where
  "PrettyPrint L filter_fns s =
     (let source = find IsSource (entries s);
          buff1 = [newline]
            @ paint L BrightBlue ''Goroutine ID'' @ '': '' @ paint L BrightYellow (show_int (id' s))
            @ [newline]
            @ paint L BrightBlue ''State'' @ '': '' @ paint L BrightYellow (state s) @ [newline];
          rest = paint L BrightBlue ''Full Stack'' @ '': '' @ [newline, newline]
            @ concat (map (printEntry L filter_fns s) (entries s)) @ [newline]
      in case source of
           Some src \<Rightarrow>
             (case FindStringSubmatch (FunctionCall src) of
                None \<Rightarrow> Inl (IndexOutOfRange 1 0)
              | Some matches \<Rightarrow>
                  if length matches \<le> 1 then Inl (IndexOutOfRange 1 (length matches))
                  else Inr (buff1
                    @ paint L BrightBlue ''Source Goroutine ID'' @ '': ''
                    @ paint L BrightRed (matches ! 1) @ [newline]
                    @ paint L BrightBlue ''Created At'' @ '': ''
                    @ paint L BrightRed (TrimPrefix (FunctionCall src) ''created by '') @ [newline]
                    @ paint L BrightBlue ''Location'' @ '': ''
                    @ paint L BrightRed (TrimSpace L (Location src)) @ [newline]
                    @ rest))
         | None \<Rightarrow>
             Inr (buff1
               @ paint L BrightBlue ''First Function'' @ '': ''
               @ paint L BrightRed (firstFunction s) @ [newline]
               @ rest))"

text \<open>A plain library for examples: no colour codes, white space in ASCII.\<close>

definition plain :: lib where
  "plain = \<lparr>paint = (\<lambda>c s. s),
            TrimSpace = (\<lambda>s. rev (dropWhile (\<lambda>c. c \<in> set [CHR '' '', tab, newline, CHR 0x0B, CHR 0x0C, CHR 0x0D])
                          (rev (dropWhile (\<lambda>c. c \<in> set [CHR '' '', tab, newline, CHR 0x0B, CHR 0x0C, CHR 0x0D]) s))))\<rparr>"

section \<open>The leak detector\<close>

text \<open>
  The options, as \<open>buildOpts\<close> hands them to the detector. \<open>buildOpts\<close> and the methods
  \<open>filter\<close> and \<open>retry\<close> of \<open>opts\<close> are not among the sources: the model takes the built
  options as an argument, \<open>filter'\<close> and \<open>retry\<close> being the two methods. \<open>retry i\<close> answers
  whether to sample again after attempt \<open>i\<close> (it also sleeps, which the model does not
  show).
\<close>

record opts =
  filter' :: "Stack \<Rightarrow> bool"
  filters :: "(Stack \<Rightarrow> bool) list"
  retry :: "nat \<Rightarrow> bool"
  cleanup :: "(int \<Rightarrow> unit) option"
  pretty :: bool

text \<open>
  The host: what \<open>runtime.Stack\<close> writes for the calling goroutine, what it writes for
  all goroutines at its \<open>k\<close>-th call, and the orders in which the three order-sensitive
  \<open>range\<close> statements of the report visit their maps.
\<close>

record host =
  current_dump :: "string list"
  all_dumps :: "nat \<Rightarrow> string list"
  range_dependency :: "int list"
  range_roots :: "int list"
  range_unvisited :: "int list"

text \<open>What the detector does to the outside, in order.\<close>

datatype event = SampleCurrent | SampleAll nat | ConsultRetry nat

definition getStacks :: "string list \<Rightarrow> panic + Stack list" where
  "getStacks trace =
     (case Parse (newStackParser trace) of
        (parsed, None) \<Rightarrow> Inr parsed
      | (parsed, Some err) \<Rightarrow> Inl (ParseFailed err))"

definition All :: "string list \<Rightarrow> panic + Stack list" where
  "All trace = getStacks trace"

definition Current :: "string list \<Rightarrow> panic + Stack" where
  "Current trace =
     (case getStacks trace of
        Inl p \<Rightarrow> Inl p
      | Inr parsed \<Rightarrow> (case parsed of [] \<Rightarrow> Inl (IndexOutOfRange 0 0) | s # _ \<Rightarrow> Inr s))"

fun filterStacks :: "Stack list \<Rightarrow> int \<Rightarrow> opts \<Rightarrow> Stack list" where
  "filterStacks [] skipID opts = []"
| "filterStacks (stack # rest) skipID opts =
     (if id' stack = skipID then filterStacks rest skipID opts
      else if filter' opts stack then filterStacks rest skipID opts
      else stack # filterStacks rest skipID opts)"

text \<open>
  The sampling loop, the same in \<open>Find\<close> and \<open>FindAndPrettyPrint\<close>. It may run for ever
  (a \<open>retry\<close> that never says no, with a leak that stays), so it carries fuel; \<open>None\<close> says
  the fuel ran out. \<open>Inr []\<close> is the return of \<open>nil\<close> from inside the loop, \<open>Inr leaked\<close>
  the leaked stacks when \<open>retry\<close> said no.
\<close>

fun sample :: "nat \<Rightarrow> host \<Rightarrow> int \<Rightarrow> opts \<Rightarrow> nat \<Rightarrow> event list
                \<Rightarrow> ((panic + Stack list) \<times> event list) option" where
  "sample 0 H cur opts i ev = None"
| "sample (Suc fuel) H cur opts i ev =
     (case All (all_dumps H i) of
        Inl p \<Rightarrow> Some (Inl p, ev @ [SampleAll i])
      | Inr all \<Rightarrow>
          let leaked = filterStacks all cur opts
          in if length leaked = 0 then Some (Inr [], ev @ [SampleAll i])
             else if retry opts i
             then sample fuel H cur opts (Suc i) (ev @ [SampleAll i, ConsultRetry i])
             else Some (Inr leaked, ev @ [SampleAll i, ConsultRetry i]))"

text \<open>The verb \<open>%s\<close> on the slice of stacks: the \<open>String\<close> of each, blanks between, in
  brackets.\<close>

fun join_blank :: "string list \<Rightarrow> string" where
  "join_blank [] = []"
| "join_blank [x] = x"
| "join_blank (x # y # ys) = x @ '' '' @ join_blank (y # ys)"

text \<open>The result of a detection call: a panic, or the error returned (\<open>None\<close> for nil),
  with the events; \<open>None\<close> when the fuel ran out.\<close>

definition Find :: "nat \<Rightarrow> host \<Rightarrow> opts \<Rightarrow> ((panic + error option) \<times> event list) option" where
  "Find fuel H opts =
     (case Current (current_dump H) of
        Inl p \<Rightarrow> Some (Inl p, [SampleCurrent])
      | Inr c \<Rightarrow>
          let cur = id' c
          in if cleanup opts \<noteq> None then Some (Inr (Some CleanupNotAllowed), [SampleCurrent])
             else (case sample fuel H cur opts 0 [SampleCurrent] of
                     None \<Rightarrow> None
                   | Some (Inl p, ev) \<Rightarrow> Some (Inl p, ev)
                   | Some (Inr leaked, ev) \<Rightarrow>
                       if leaked = [] then Some (Inr None, ev)
                       else Some (Inr (Some (FoundUnexpected
                              (''found unexpected goroutines:'' @ [newline] @ ''[''
                                 @ join_blank (map String leaked) @ '']''))), ev)))"

text \<open>The loop of \<open>FindAndPrettyPrint\<close> over the leaked stacks: the two maps, and the
  pretty text of each stack, unless \<open>PrettyPrint\<close> panics.\<close>

fun describe :: "lib \<Rightarrow> opts \<Rightarrow> Stack list \<Rightarrow> (int \<rightharpoonup> int) \<times> (int \<rightharpoonup> Entry) \<times> string
                  \<Rightarrow> panic + ((int \<rightharpoonup> int) \<times> (int \<rightharpoonup> Entry) \<times> string)" where
  "describe L opts [] acc = Inr acc"
| "describe L opts (s # ss) (dependency, defs, sb) =
     (case PrettyPrint L (filters opts) s of
        Inl p \<Rightarrow> Inl p
      | Inr text \<Rightarrow>
          describe L opts ss
            (dependency(id' s \<mapsto> SourceGoroutineID s), defs(id' s \<mapsto> SourceEntry s), sb @ text))"

definition FindAndPrettyPrint ::
    "nat \<Rightarrow> lib \<Rightarrow> host \<Rightarrow> opts \<Rightarrow> ((panic + error option) \<times> event list) option" where
  "FindAndPrettyPrint fuel L H opts =
     (case Current (current_dump H) of
        Inl p \<Rightarrow> Some (Inl p, [SampleCurrent])
      | Inr c \<Rightarrow>
          let cur = id' c
          in if cleanup opts \<noteq> None then Some (Inr (Some CleanupNotAllowed), [SampleCurrent])
             else (case sample fuel H cur opts 0 [SampleCurrent] of
                     None \<Rightarrow> None
                   | Some (Inl p, ev) \<Rightarrow> Some (Inl p, ev)
                   | Some (Inr leaked, ev) \<Rightarrow>
                       if leaked = [] then Some (Inr None, ev)
                       else (case describe L opts leaked (Map.empty, Map.empty, []) of
                               Inl p \<Rightarrow> Some (Inl p, ev)
                             | Inr (dependency, defs, sb) \<Rightarrow>
                                 let g = ''[*] found unexpected goroutines:'' @ [newline]
                                       @ ''[-] '' @ paint L BrightBlue ''Dependency Graph''
                                       @ '':'' @ [newline, newline];
                                     mapping = List.map_filter
                                       (\<lambda>k. map_option (Pair k) (dependency k))
                                       (range_dependency H);
                                     graph = BuildGraph mapping
                                 in (case PrintGraph fuel (range_roots H) (range_unvisited H)
                                            g graph defs of
                                       None \<Rightarrow> None
                                     | Some g' \<Rightarrow>
                                         Some (Inr (Some (ErrorfTemplate
                                           (g' @ [newline] @ ''-> ''
                                              @ paint L BrightMagenta ''Goroutines''
                                              @ '':'' @ [newline, newline] @ sb))), ev)))))"

section \<open>Rendering the dependency graph\<close>

subsection \<open>Rendering a cyclic mapping\<close>

lemma BuildGraph_cycle: "BuildGraph [(1, 2), (2, 1)] = [1 \<mapsto> [2], 2 \<mapsto> [1]]"
  by (auto simp: BuildGraph_def fun_eq_iff)

lemma printSubGraph_cycle:
  "node = 1 \<or> node = 2 \<Longrightarrow>
   printSubGraph fuel [1 \<mapsto> [2], 2 \<mapsto> [1]] defs node prefix isLast st = None"
proof (induction fuel arbitrary: node prefix isLast st)
  case 0
  then show ?case by simp
next
  case (Suc fuel)
  then show ?case by (auto simp: Let_def)
qed

text \<open>
  C1: on the cyclic mapping \<open>{1: 2, 2: 1}\<close> rendering does not terminate. The graph has
  no root, so the second loop of \<open>PrintGraph\<close> calls \<open>printSubGraph\<close> on the first node
  that \<open>range\<close> hands it; \<open>printSubGraph\<close> marks nodes as visited but never reads the
  marks, and goes round the cycle. Whatever the orders of the two \<open>range\<close> statements,
  and however much fuel (nesting depth) is allowed, the fuel runs out.
\<close>

theorem PrintGraph_cycle_never_returns:
  assumes "range_order keys1 (BuildGraph [(1, 2), (2, 1)])"
    and "range_order keys2 (BuildGraph [(1, 2), (2, 1)])"
  shows "PrintGraph fuel keys1 keys2 buff (BuildGraph [(1, 2), (2, 1)]) defs = None"
proof -
  let ?g = "[1 \<mapsto> [2], 2 \<mapsto> [1::int]] :: graph"
  from assms have k1: "set keys1 = {1, 2}" and k2: "set keys2 = {1, 2}"
    by (auto simp: range_order_def BuildGraph_cycle)
  have "\<And>k. k \<in> set keys1 \<Longrightarrow>
          k \<in> set (concat (map (\<lambda>k. case ?g k of None \<Rightarrow> [] | Some cs \<Rightarrow> cs) keys1))"
    using k1 by (auto split: option.splits)
  then have roots: "findRoots keys1 ?g = []"
    by (simp add: findRoots_def Let_def filter_empty_conv)
  from k2 obtain k ks where keys2: "keys2 = k # ks" and k: "k = 1 \<or> k = 2"
    by (cases keys2) auto
  show ?thesis
    using printSubGraph_cycle [OF k]
    by (simp add: PrintGraph_def BuildGraph_cycle roots keys2)
qed

theorem PrintGraph_cycle_never_returns_witness:
  "range_order [1, 2] (BuildGraph [(1, 2), (2, 1)]) \<and>
   range_order [2, 1] (BuildGraph [(1, 2), (2, 1)]) \<and>
   PrintGraph 1000 [1, 2] [2, 1] [] (BuildGraph [(1, 2), (2, 1)]) Map.empty = None"
proof -
  have a: "range_order [1, 2] (BuildGraph [(1, 2), (2, 1)])"
    by (auto simp: range_order_def BuildGraph_cycle)
  have b: "range_order [2, 1] (BuildGraph [(1, 2), (2, 1)])"
    by (auto simp: range_order_def BuildGraph_cycle)
  show ?thesis
    using a b PrintGraph_cycle_never_returns [OF a b, of 1000 "[]" Map.empty] by simp
qed

subsection \<open>Rendering the same mapping twice\<close>

lemma BuildGraph_two_roots:
  "BuildGraph [(1, 3), (2, 4)] = [3 \<mapsto> [1], 4 \<mapsto> [2], 1 \<mapsto> [], 2 \<mapsto> []]"
  by (auto simp: BuildGraph_def fun_eq_iff)

text \<open>
  C6: the mapping \<open>{1: 3, 2: 4}\<close> has the two roots 3 and 4. \<open>findRoots\<close> collects them in
  the order \<open>range graph\<close> visits the nodes, and nothing sorts them: only the children of
  each node are sorted. Two renderings of the same graph, one where \<open>range\<close> reaches 3
  before 4 and one where it reaches 4 before 3, write different texts.
\<close>

theorem PrintGraph_depends_on_range_order:
  "range_order [3, 4, 1, 2] (BuildGraph [(1, 3), (2, 4)]) \<and>
   range_order [4, 3, 1, 2] (BuildGraph [(1, 3), (2, 4)]) \<and>
   PrintGraph 2 [3, 4, 1, 2] [1, 2, 3, 4] [] (BuildGraph [(1, 3), (2, 4)]) Map.empty =
     Some (last_connector @ ''3 ()'' @ [newline] @ ''    '' @ last_connector @ ''1 ()'' @ [newline]
         @ last_connector @ ''4 ()'' @ [newline] @ ''    '' @ last_connector @ ''2 ()'' @ [newline]) \<and>
   PrintGraph 2 [4, 3, 1, 2] [1, 2, 3, 4] [] (BuildGraph [(1, 3), (2, 4)]) Map.empty =
     Some (last_connector @ ''4 ()'' @ [newline] @ ''    '' @ last_connector @ ''2 ()'' @ [newline]
         @ last_connector @ ''3 ()'' @ [newline] @ ''    '' @ last_connector @ ''1 ()'' @ [newline]) \<and>
   PrintGraph 2 [3, 4, 1, 2] [1, 2, 3, 4] [] (BuildGraph [(1, 3), (2, 4)]) Map.empty \<noteq>
   PrintGraph 2 [4, 3, 1, 2] [1, 2, 3, 4] [] (BuildGraph [(1, 3), (2, 4)]) Map.empty"
proof -
  have s: "show_int 1 = ''1''" "show_int 2 = ''2''" "show_int 3 = ''3''" "show_int 4 = ''4''"
    by (simp_all add: show_int_def show_nat.simps)
  have a: "range_order [3, 4, 1, 2] (BuildGraph [(1, 3), (2, 4)])"
    by (auto simp: range_order_def BuildGraph_two_roots split: if_splits)
  have b: "range_order [4, 3, 1, 2] (BuildGraph [(1, 3), (2, 4)])"
    by (auto simp: range_order_def BuildGraph_two_roots split: if_splits)
  have c: "PrintGraph 2 [3, 4, 1, 2] [1, 2, 3, 4] [] (BuildGraph [(1, 3), (2, 4)]) Map.empty =
     Some (last_connector @ ''3 ()'' @ [newline] @ ''    '' @ last_connector @ ''1 ()'' @ [newline]
         @ last_connector @ ''4 ()'' @ [newline] @ ''    '' @ last_connector @ ''2 ()'' @ [newline])"
    by (simp add: PrintGraph_def BuildGraph_two_roots findRoots_def numeral_2_eq_2 s
          defs_lookup_def Entry_zero_def)
  have d: "PrintGraph 2 [4, 3, 1, 2] [1, 2, 3, 4] [] (BuildGraph [(1, 3), (2, 4)]) Map.empty =
     Some (last_connector @ ''4 ()'' @ [newline] @ ''    '' @ last_connector @ ''2 ()'' @ [newline]
         @ last_connector @ ''3 ()'' @ [newline] @ ''    '' @ last_connector @ ''1 ()'' @ [newline])"
    by (simp add: PrintGraph_def BuildGraph_two_roots findRoots_def numeral_2_eq_2 s
          defs_lookup_def Entry_zero_def)
  have e: "PrintGraph 2 [3, 4, 1, 2] [1, 2, 3, 4] [] (BuildGraph [(1, 3), (2, 4)]) Map.empty \<noteq>
   PrintGraph 2 [4, 3, 1, 2] [1, 2, 3, 4] [] (BuildGraph [(1, 3), (2, 4)]) Map.empty"
    unfolding c d by (simp add: last_connector_def)
  from a b c d e show ?thesis by blast
qed

section \<open>Header lines\<close>














section \<open>Parse as a function of the unread lines\<close>

text \<open>\<open>stack_lines\<close> is \<open>parseStack\<close> and \<open>parse_lines\<close> the loop of \<open>Parse\<close>, both run
  on a list of lines the way \<open>lines_loop\<close> is.\<close>

definition stack_lines :: "string \<Rightarrow> string list \<Rightarrow> (error + Stack) \<times> string list" where
  "stack_lines line ls =
     (case parseGoStackHeader line of
        Inl err \<Rightarrow> (Inl (ParseHeader err), ls)
      | Inr (n, st) \<Rightarrow>
          (case lines_loop ls locals_init of
             (Inl err, rest) \<Rightarrow> (Inl err, rest)
           | (Inr v, rest) \<Rightarrow>
               (Inr \<lparr>id' = n, state = st, firstFunction = firstFunction' v,
                     allFunctions = funcs v, fullStack = fullStack' v,
                     entries = entries' v\<rparr>, rest)))"

lemma parseStack_lines:
  "fst (parseStack sc line) = fst (stack_lines line (unread sc)) \<and>
   unread (snd (parseStack sc line)) = snd (stack_lines line (unread sc))"
  using parseLoop_lines [of sc locals_init]
  by (cases "parseLoop sc locals_init"; cases "lines_loop (unread sc) locals_init")
     (auto simp: parseStack_def stack_lines_def split: sum.splits)

lemma stack_lines_length: "length (snd (stack_lines line ls)) \<le> length ls"
  using lines_loop_length [of ls locals_init]
  by (cases "lines_loop ls locals_init") (auto simp: stack_lines_def split: sum.splits)

function parse_lines :: "string list \<Rightarrow> Stack list \<times> error list" where
  "parse_lines [] = ([], [])"
| "parse_lines (l # ls) =
     (if is_header l
      then (case stack_lines l ls of
              (Inl err, rest) \<Rightarrow> (fst (parse_lines rest), err # snd (parse_lines rest))
            | (Inr s, rest) \<Rightarrow> (s # fst (parse_lines rest), snd (parse_lines rest)))
      else parse_lines ls)"
  by pat_completeness auto
termination
proof (relation "measure length", goal_cases)
  case 1
  show ?case by simp
next
  case (2 l ls x y e)
  then show ?case using stack_lines_length [of l ls] by (simp add: less_Suc_eq_le flip: 2(2))
next
  case (3 l ls x y e)
  then show ?case using stack_lines_length [of l ls] by (simp add: less_Suc_eq_le flip: 3(2))
next
  case (4 l ls x y e)
  then show ?case using stack_lines_length [of l ls] by (simp add: less_Suc_eq_le flip: 4(2))
next
  case (5 l ls x y e)
  then show ?case using stack_lines_length [of l ls] by (simp add: less_Suc_eq_le flip: 5(2))
next
  case (6 l ls)
  show ?case by simp
qed

declare parse_lines.simps(2) [simp del]

lemma parse_lines_other: "\<not> is_header l \<Longrightarrow> parse_lines (l # ls) = parse_lines ls"
  by (simp add: parse_lines.simps)

lemma parse_lines_error:
  "is_header l \<Longrightarrow> stack_lines l ls = (Inl err, rest) \<Longrightarrow>
   parse_lines (l # ls) = (fst (parse_lines rest), err # snd (parse_lines rest))"
  by (simp add: parse_lines.simps)

lemma parse_lines_stack:
  "is_header l \<Longrightarrow> stack_lines l ls = (Inr s, rest) \<Longrightarrow>
   parse_lines (l # ls) = (s # fst (parse_lines rest), snd (parse_lines rest))"
  by (simp add: parse_lines.simps)

lemma Parse_loop_nil: "unread (scan p) = [] \<Longrightarrow> Parse_loop p = p"
  by (simp add: Parse_loop.simps [of p] Scan_nil)

lemma Parse_loop_cons:
  "unread (scan p) = l # ls \<Longrightarrow>
   Parse_loop p =
     (if is_header l
      then (case parseStack (at_line l ls) l of
              (Inl err, sc') \<Rightarrow> Parse_loop (p\<lparr>scan := sc', errors := errors p @ [err]\<rparr>)
            | (Inr stack, sc') \<Rightarrow> Parse_loop (p\<lparr>scan := sc', stacks := stacks p @ [stack]\<rparr>))
      else Parse_loop (p\<lparr>scan := at_line l ls\<rparr>))"
  by (simp add: Parse_loop.simps [of p] Scan_cons Let_def is_header_def)

lemma Parse_loop_lines:
  "stacks (Parse_loop p) = stacks p @ fst (parse_lines (unread (scan p))) \<and>
   errors (Parse_loop p) = errors p @ snd (parse_lines (unread (scan p)))"
proof (induction "length (unread (scan p))" arbitrary: p rule: less_induct)
  case less
  show ?case
  proof (cases "unread (scan p)")
    case Nil
    then show ?thesis by (simp add: Parse_loop_nil)
  next
    case (Cons l ls)
    note step = Parse_loop_cons [OF Cons]
    have ih: "\<And>q. length (unread (scan q)) \<le> length ls \<Longrightarrow>
        stacks (Parse_loop q) = stacks q @ fst (parse_lines (unread (scan q))) \<and>
        errors (Parse_loop q) = errors q @ snd (parse_lines (unread (scan q)))"
      by (rule less) (simp add: Cons)
    show ?thesis
    proof (cases "is_header l")
      case False
      then show ?thesis
        using ih [of "p\<lparr>scan := at_line l ls\<rparr>"]
        by (simp add: step Cons parse_lines_other)
    next
      case True
      obtain r sc' where ps: "parseStack (at_line l ls) l = (r, sc')"
        by (cases "parseStack (at_line l ls) l")
      with parseStack_lines [of "at_line l ls" l]
      have sl: "stack_lines l ls = (r, unread sc')"
        by (cases "stack_lines l ls") simp
      have le: "length (unread sc') \<le> length ls"
        using stack_lines_length [of l ls] by (simp add: sl)
      show ?thesis
      proof (cases r)
        case (Inl err)
        have le': "length (unread (scan (p\<lparr>scan := sc', errors := errors p @ [err]\<rparr>))) \<le> length ls"
          using le by simp
        show ?thesis
          using ih [OF le'] True sl
          by (simp add: step ps Inl Cons parse_lines_error [of l ls err "unread sc'"])
      next
        case (Inr s)
        have le': "length (unread (scan (p\<lparr>scan := sc', stacks := stacks p @ [s]\<rparr>))) \<le> length ls"
          using le by simp
        show ?thesis
          using ih [OF le'] True sl
          by (simp add: step ps Inr Cons parse_lines_stack [of l ls s "unread sc'"])
      qed
    qed
  qed
qed

lemma takeLocation_append:
  "ys = [] \<or> is_header (hd ys) \<Longrightarrow>
   takeLocation v (ls @ ys) = (fst (takeLocation v ls), snd (takeLocation v ls) @ ys)"
  by (cases ls; cases ys) (auto simp: takeLocation_def dest: not_header_location)

lemma lines_loop_append:
  "ys = [] \<or> is_header (hd ys) \<Longrightarrow>
   lines_loop (xs @ ys) v = (fst (lines_loop xs v), snd (lines_loop xs v) @ ys)"
proof (induction xs v rule: lines_loop_cases)
  case (eof v)
  then show ?case by (cases ys) (simp_all add: lines_loop_header)
next
  case (header l ls v)
  then show ?case by (simp add: lines_loop_header)
next
  case (skip l ls v)
  then show ?case by (simp add: lines_loop_skip)
next
  case (bad l ls v err)
  then show ?case by (simp add: lines_loop_bad)
next
  case (creator l ls v f)
  then show ?case by (simp add: lines_loop_creator takeLocation_append)
next
  case (call l ls v f v4 rest)
  then show ?case by (simp add: lines_loop_call takeLocation_append)
qed

lemma stack_lines_append:
  "ys = [] \<or> is_header (hd ys) \<Longrightarrow>
   stack_lines l (xs @ ys) = (fst (stack_lines l xs), snd (stack_lines l xs) @ ys)"
  by (cases "lines_loop xs locals_init")
     (auto simp: stack_lines_def lines_loop_append split: sum.splits)

lemma parse_lines_append:
  assumes ys: "ys = [] \<or> is_header (hd ys)"
  shows "parse_lines (xs @ ys) =
     (fst (parse_lines xs) @ fst (parse_lines ys), snd (parse_lines xs) @ snd (parse_lines ys))"
proof (induction "length xs" arbitrary: xs rule: less_induct)
  case less
  show ?case
  proof (cases xs)
    case Nil
    then show ?thesis by simp
  next
    case (Cons l ls)
    have ih: "\<And>zs. length zs \<le> length ls \<Longrightarrow> parse_lines (zs @ ys) =
       (fst (parse_lines zs) @ fst (parse_lines ys), snd (parse_lines zs) @ snd (parse_lines ys))"
      by (rule less) (simp add: Cons)
    show ?thesis
    proof (cases "is_header l")
      case False
      with ih [of ls] show ?thesis by (simp add: Cons parse_lines_other)
    next
      case True
      obtain r rest where sl: "stack_lines l ls = (r, rest)"
        by (cases "stack_lines l ls")
      then have sl': "stack_lines l (ls @ ys) = (r, rest @ ys)"
        using stack_lines_append [OF ys, of l ls] by simp
      have "length rest \<le> length ls"
        using stack_lines_length [of l ls] by (simp add: sl)
      note ih' = ih [OF this]
      show ?thesis
      proof (cases r)
        case (Inl err)
        with ih' True sl sl' show ?thesis
          by (simp add: Cons parse_lines_error [of l _ err])
      next
        case (Inr s)
        with ih' True sl sl' show ?thesis
          by (simp add: Cons parse_lines_stack [of l _ s])
      qed
    qed
  qed
qed

lemma parse_lines_no_header:
  "list_all (\<lambda>l. \<not> is_header l) ls \<Longrightarrow> parse_lines ls = ([], [])"
  by (induction ls) (simp_all add: parse_lines_other)

text \<open>A chunk is a header line with the lines up to the next header line.\<close>

definition is_chunk :: "string list \<Rightarrow> bool" where
  "is_chunk c \<longleftrightarrow> c \<noteq> [] \<and> is_header (hd c) \<and> list_all (\<lambda>l. \<not> is_header l) (tl c)"

lemma stack_lines_rest_no_header:
  assumes "list_all (\<lambda>l. \<not> is_header l) ls"
  shows "list_all (\<lambda>l. \<not> is_header l) (snd (stack_lines h ls))"
proof -
  obtain consumed where "ls = consumed @ snd (lines_loop ls locals_init)"
    using lines_loop_consumes [of ls locals_init] by blast
  then have "set (snd (lines_loop ls locals_init)) \<subseteq> set ls"
    by (metis set_append sup_ge2)
  then have "set (snd (stack_lines h ls)) \<subseteq> set ls"
    by (cases "lines_loop ls locals_init") (auto simp: stack_lines_def split: sum.splits)
  with assms show ?thesis
    by (auto simp: list_all_iff)
qed

lemma parse_lines_chunk:
  assumes "is_chunk c"
  shows "(\<exists>s. parse_lines c = ([s], [])) \<or> (\<exists>e. parse_lines c = ([], [e]))"
proof -
  from assms obtain h body where c: "c = h # body" and h: "is_header h"
    and body: "list_all (\<lambda>l. \<not> is_header l) body"
    by (cases c) (auto simp: is_chunk_def)
  obtain r rest where sl: "stack_lines h body = (r, rest)"
    by (cases "stack_lines h body")
  have "parse_lines rest = ([], [])"
    using stack_lines_rest_no_header [OF body, of h] sl by (simp add: parse_lines_no_header)
  then show ?thesis
    using h sl by (cases r) (simp_all add: c parse_lines_error parse_lines_stack)
qed

lemma concat_chunks_header:
  "list_all is_chunk cs \<Longrightarrow> concat cs = [] \<or> is_header (hd (concat cs))"
  by (cases cs) (auto simp: is_chunk_def)

lemma parse_lines_chunks:
  "list_all is_chunk cs \<Longrightarrow>
   parse_lines (concat cs) =
     (concat (map (\<lambda>c. fst (parse_lines c)) cs), concat (map (\<lambda>c. snd (parse_lines c)) cs))"
proof (induction cs)
  case Nil
  show ?case by simp
next
  case (Cons c cs)
  from Cons.prems have cs: "list_all is_chunk cs" by simp
  have "concat cs = [] \<or> is_header (hd (concat cs))"
    using concat_chunks_header [OF cs] .
  from parse_lines_append [OF this, of c] Cons.IH [OF cs] show ?case by simp
qed

lemma unread_newScanner [simp]: "unread (newScanner ls) = ls"
  by (simp add: unread_def newScanner_def)

lemma Parse_loop_newStackParser:
  "stacks (Parse_loop (newStackParser ls)) = fst (parse_lines ls) \<and>
   errors (Parse_loop (newStackParser ls)) = snd (parse_lines ls)"
  using Parse_loop_lines [of "newStackParser ls"] by (simp add: newStackParser_def)

lemma Join_Some: "Join (map Some es @ [None]) = (if es = [] then None else Some (Joined es))"
proof -
  have "concat (map (\<lambda>e. case e of None \<Rightarrow> [] | Some x \<Rightarrow> [x]) (map Some es)) = es"
    by (induction es) simp_all
  then show ?thesis by (simp add: Join_def)
qed

lemma Parse_parse_lines:
  "Parse (newStackParser ls) =
     (fst (parse_lines ls),
      if snd (parse_lines ls) = [] then None else Some (Joined (snd (parse_lines ls))))"
  by (simp add: Parse_def Let_def Parse_loop_newStackParser Err_def Join_Some)

lemma chunks_exist:
  "\<exists>pre chunks. dump = pre @ concat chunks \<and> list_all (\<lambda>l. \<not> is_header l) pre \<and>
     list_all is_chunk chunks"
proof (induction dump)
  case Nil
  show ?case by (rule exI [of _ "[]"], rule exI [of _ "[]"]) simp
next
  case (Cons l dump)
  then obtain pre chunks where d: "dump = pre @ concat chunks"
    and pre: "list_all (\<lambda>l. \<not> is_header l) pre" and ch: "list_all is_chunk chunks"
    by blast
  show ?case
  proof (cases "is_header l")
    case True
    with pre have "is_chunk (l # pre)" by (simp add: is_chunk_def)
    then show ?thesis
      by (intro exI [of _ "[]"] exI [of _ "(l # pre) # chunks"]) (use d ch in simp)
  next
    case False
    show ?thesis
      by (rule exI [of _ "l # pre"], rule exI [of _ chunks]) (use d pre ch False in simp)
  qed
qed

section \<open>Parse does not stop at a malformed stack\<close>

text \<open>
  C2: split the dump at its header lines: some lines before the first header, then
  chunks, each a header line with the lines that follow it up to the next header (every
  dump splits this way, \<open>chunks_exist\<close>). \<open>Parse\<close> returns, in order, what parsing each
  chunk alone returns, and each chunk gives exactly one stack or exactly one error: a
  malformed stack costs its own chunk only, scanning resumes at the next header line,
  and the error returned joins the errors of all the malformed chunks.
\<close>

theorem Parse_continues_after_malformed_stack:
  assumes "list_all (\<lambda>l. \<not> is_header l) pre" and "list_all is_chunk chunks"
  shows "stacks (Parse_loop (newStackParser (pre @ concat chunks))) =
           concat (map (\<lambda>c. stacks (Parse_loop (newStackParser c))) chunks) \<and>
         errors (Parse_loop (newStackParser (pre @ concat chunks))) =
           concat (map (\<lambda>c. errors (Parse_loop (newStackParser c))) chunks) \<and>
         list_all (\<lambda>c. length (stacks (Parse_loop (newStackParser c))) +
                        length (errors (Parse_loop (newStackParser c))) = 1) chunks \<and>
         Parse (newStackParser (pre @ concat chunks)) =
           (stacks (Parse_loop (newStackParser (pre @ concat chunks))),
            if errors (Parse_loop (newStackParser (pre @ concat chunks))) = [] then None
            else Some (Joined (errors (Parse_loop (newStackParser (pre @ concat chunks))))))"
proof -
  have h: "concat chunks = [] \<or> is_header (hd (concat chunks))"
    using concat_chunks_header [OF assms(2)] .
  have a: "parse_lines (pre @ concat chunks) = parse_lines (concat chunks)"
    using parse_lines_append [OF h, of pre] parse_lines_no_header [OF assms(1)] by simp
  have one: "list_all (\<lambda>c. length (fst (parse_lines c)) + length (snd (parse_lines c)) = 1) chunks"
    using assms(2) parse_lines_chunk by (fastforce simp: list_all_iff)
  show ?thesis
    using a one parse_lines_chunks [OF assms(2)]
    by (simp add: Parse_loop_newStackParser Parse_parse_lines)
qed

definition example_chunks :: "string list list" where
  "example_chunks =
     [[''goroutine 1 [running]:'', ''main.foo()'', tab # ''/a/b.go:10 +0x1'', []],
      [''goroutine x [running]:'', ''main.bar()'', tab # ''/a/b.go:11 +0x1''],
      [''goroutine 3 [select]:'', ''no function here'', ''main.baz()''],
      [''goroutine 2 [chan receive]:'', ''created by main.spawn in goroutine 1'',
       tab # ''/a/b.go:20 +0x2'']]"

theorem Parse_continues_after_malformed_stack_witness:
  "list_all (\<lambda>l. \<not> is_header l) [''runtime banner''] \<and>
   list_all is_chunk example_chunks \<and>
   map id' (stacks (Parse_loop (newStackParser ([''runtime banner''] @ concat example_chunks))))
     = [1, 2] \<and>
   errors (Parse_loop (newStackParser ([''runtime banner''] @ concat example_chunks)))
     = [ParseHeader (BadGoroutineID ''x'' ''goroutine x [running]''),
        ParseFunction (NoFunctionFound ''no function here'')]"
proof -
  have a: "list_all (\<lambda>l. \<not> is_header l) [''runtime banner'']"
    by (simp add: is_header_def HasPrefix_def)
  have b: "list_all is_chunk example_chunks"
    by (simp add: example_chunks_def is_chunk_def is_header_def HasPrefix_def tab_def)
  have c: "map id' (concat (map (\<lambda>c. stacks (Parse_loop (newStackParser c))) example_chunks))
             = [1, 2]"
    by code_simp
  have d: "concat (map (\<lambda>c. errors (Parse_loop (newStackParser c))) example_chunks)
     = [ParseHeader (BadGoroutineID ''x'' ''goroutine x [running]''),
        ParseFunction (NoFunctionFound ''no function here'')]"
    by code_simp
  show ?thesis
    using a b c d Parse_continues_after_malformed_stack [OF a b] by simp
qed

section \<open>What fullStack holds\<close>

text \<open>
  C4, as the code has it: \<open>fullStack\<close> is the lines \<open>parseStack\<close> consumed after the header
  line, in order, each followed by a newline. The header line itself, which \<open>Parse\<close>
  consumed before calling \<open>parseStack\<close>, is not written to it.
\<close>

theorem parseStack_fullStack:
  assumes "parseStack sc line = (Inr s, sc')"
  shows "\<exists>consumed. unread sc = consumed @ unread sc' \<and> fullStack s = terminated consumed"
proof -
  from assms obtain v where pl: "parseLoop sc locals_init = (Inr v, sc')"
    and s: "fullStack s = fullStack' v"
    by (auto simp: parseStack_def split: sum.splits prod.splits)
  from pl parseLoop_lines [of sc locals_init]
  have ll: "fst (lines_loop (unread sc) locals_init) = Inr v"
    "snd (lines_loop (unread sc) locals_init) = unread sc'"
    by simp_all
  from lines_loop_consumes [of "unread sc" locals_init] obtain consumed where
    "unread sc = consumed @ snd (lines_loop (unread sc) locals_init)"
    "\<forall>v'. fst (lines_loop (unread sc) locals_init) = Inr v' \<longrightarrow>
        fullStack' v' = fullStack' locals_init @ terminated consumed"
    by blast
  with ll s have "unread sc = consumed @ unread sc' \<and> fullStack s = terminated consumed"
    by (simp add: locals_init_def)
  then show ?thesis ..
qed

theorem parseStack_fullStack_witness:
  "parseStack (at_line ''goroutine 1 [running]:''
       [''main.foo()'', tab # ''/a/b.go:10 +0x1'', ''goroutine 2 [select]:''])
     ''goroutine 1 [running]:'' =
     (Inr \<lparr>id' = 1, state = ''running'', firstFunction = ''main.foo'',
           allFunctions = {''main.foo''},
           fullStack = ''main.foo()'' @ [newline] @ tab # ''/a/b.go:10 +0x1'' @ [newline],
           entries = [\<lparr>FunctionCall = ''main.foo()'', Location = tab # ''/a/b.go:10 +0x1'',
                       IsSource = False\<rparr>]\<rparr>,
      Unscan (at_line ''goroutine 2 [select]:'' [])) \<and>
   (\<exists>consumed.
      [''main.foo()'', tab # ''/a/b.go:10 +0x1'', ''goroutine 2 [select]:''] =
        consumed @ [''goroutine 2 [select]:''] \<and>
      ''main.foo()'' @ [newline] @ tab # ''/a/b.go:10 +0x1'' @ [newline] = terminated consumed)"
proof -
  have e: "parseStack (at_line ''goroutine 1 [running]:''
       [''main.foo()'', tab # ''/a/b.go:10 +0x1'', ''goroutine 2 [select]:''])
     ''goroutine 1 [running]:'' =
     (Inr \<lparr>id' = 1, state = ''running'', firstFunction = ''main.foo'',
           allFunctions = {''main.foo''},
           fullStack = ''main.foo()'' @ [newline] @ tab # ''/a/b.go:10 +0x1'' @ [newline],
           entries = [\<lparr>FunctionCall = ''main.foo()'', Location = tab # ''/a/b.go:10 +0x1'',
                       IsSource = False\<rparr>]\<rparr>,
      Unscan (at_line ''goroutine 2 [select]:'' []))"
    by code_simp
  show ?thesis
    using e parseStack_fullStack [OF e] by simp
qed

text \<open>
  The header line is consumed for the stack but does not reach \<open>fullStack\<close>: the stack of
  this dump has a \<open>fullStack\<close> without the byte \<open>[\<close> of its header.
\<close>

theorem fullStack_omits_header:
  "map fullStack (fst (ParseStack [''goroutine 1 [running]:'', ''main.foo()'',
                                   tab # ''/a/b.go:10 +0x1'']))
     = [''main.foo()'' @ [newline] @ tab # ''/a/b.go:10 +0x1'' @ [newline]] \<and>
   CHR ''['' \<in> set ''goroutine 1 [running]:'' \<and>
   CHR ''['' \<notin> set (''main.foo()'' @ [newline] @ tab # ''/a/b.go:10 +0x1'' @ [newline])"
  by code_simp

section \<open>The creator entry and the set of functions\<close>

lemma takeLocation_entries:
  "entries' (fst (takeLocation v ls)) = entries' v \<or>
   (\<exists>t. entries' (fst (takeLocation v ls)) = entries' v @ [(currentEntry v)\<lparr>Location := t\<rparr>])"
  by (cases ls) (auto simp: takeLocation_def addLocation_def)

lemma takeLocation_currentEntry:
  "IsSource (currentEntry (fst (takeLocation v ls))) = IsSource (currentEntry v)"
  by (cases ls) (auto simp: takeLocation_def addLocation_def)

lemma takeLocation_funcs [simp]: "funcs (fst (takeLocation v ls)) = funcs v"
  by (cases ls) (auto simp: takeLocation_def addLocation_def)

lemma takeLocation_firstFunction [simp]:
  "firstFunction' (fst (takeLocation v ls)) = firstFunction' v"
  by (cases ls) (auto simp: takeLocation_def addLocation_def)

lemma takeLocation_rest: "set (snd (takeLocation v ls)) \<subseteq> set ls"
  by (cases ls) (auto simp: takeLocation_def)

lemma recordCall_simps [simp]:
  "entries' (recordCall v l f c) = entries' v"
  "IsSource (currentEntry (recordCall v l f c)) = (c \<or> IsSource (currentEntry v))"
  "FunctionCall (currentEntry (recordCall v l f c)) = l"
  "funcs (recordCall v l f c) = (if c then funcs v else insert f (funcs v))"
  "firstFunction' (recordCall v l f c) =
     (if \<not> c \<and> firstFunction' v = [] then f else firstFunction' v)"
  by (simp_all add: recordCall_def Let_def)

lemma lines_loop_entries:
  "\<not> IsSource (currentEntry v) \<Longrightarrow> list_all (\<lambda>e. \<not> IsSource e) (entries' v) \<Longrightarrow>
   fst (lines_loop ls v) = Inr v' \<Longrightarrow>
   list_all (\<lambda>e. \<not> IsSource e) (butlast (entries' v'))"
proof (induction ls v rule: lines_loop_cases)
  case (eof v)
  then show ?case by (auto simp: list_all_iff dest: in_set_butlastD)
next
  case (header l ls v)
  then show ?case by (auto simp: lines_loop_header list_all_iff dest: in_set_butlastD)
next
  case (skip l ls v)
  then show ?case by (simp add: lines_loop_skip)
next
  case (bad l ls v err)
  then show ?case by (simp add: lines_loop_bad)
next
  case (creator l ls v f)
  let ?v3 = "recordCall (v\<lparr>fullStack' := fullStack' v @ l @ [newline]\<rparr>) l f True"
  from creator(6) have v': "v' = fst (takeLocation ?v3 ls)"
    by (simp add: lines_loop_creator [OF creator(1-3)])
  from takeLocation_entries [of ?v3 ls] creator(5) show ?case
    unfolding v' by (auto simp: list_all_iff dest: in_set_butlastD)
next
  case (call l ls v f v4 rest)
  let ?v3 = "recordCall (v\<lparr>fullStack' := fullStack' v @ l @ [newline]\<rparr>) l f False"
  have v4: "v4 = fst (takeLocation ?v3 ls)" using call(4) by simp
  have a: "\<not> IsSource (currentEntry v4)"
    unfolding v4 using call(6) by (simp add: takeLocation_currentEntry)
  have b: "list_all (\<lambda>e. \<not> IsSource e) (entries' v4)"
    unfolding v4 using takeLocation_entries [of ?v3 ls] call(6,7) by auto
  from call(8) have "fst (lines_loop rest v4) = Inr v'"
    by (simp add: lines_loop_call [OF call(1-3)] call(4))
  from call(5) [OF a b this] show ?case .
qed

lemma lines_loop_funcs:
  "fst (lines_loop ls v) = Inr v' \<Longrightarrow> f \<in> funcs v' \<Longrightarrow>
   f \<in> funcs v \<or> (\<exists>l \<in> set ls. parseFuncName l = Inr (f, False))"
proof (induction ls v rule: lines_loop_cases)
  case (eof v)
  then show ?case by simp
next
  case (header l ls v)
  then show ?case by (simp add: lines_loop_header)
next
  case (skip l ls v)
  then show ?case by (auto simp: lines_loop_skip)
next
  case (bad l ls v err)
  then show ?case by (simp add: lines_loop_bad)
next
  case (creator l ls v g)
  then show ?case by (auto simp: lines_loop_creator)
next
  case (call l ls v g v4 rest)
  let ?v3 = "recordCall (v\<lparr>fullStack' := fullStack' v @ l @ [newline]\<rparr>) l g False"
  have v4: "v4 = fst (takeLocation ?v3 ls)" and rest: "rest = snd (takeLocation ?v3 ls)"
    using call(4) by simp_all
  from call(6) have "fst (lines_loop rest v4) = Inr v'"
    by (simp add: lines_loop_call [OF call(1-3)] call(4))
  from call(5) [OF this call(7)]
  have "f \<in> funcs v4 \<or> (\<exists>l\<in>set rest. parseFuncName l = Inr (f, False))" .
  then show ?case
  proof
    assume "f \<in> funcs v4"
    then have "f = g \<or> f \<in> funcs v" by (simp add: v4)
    with call(3) show ?thesis by auto
  next
    assume "\<exists>l\<in>set rest. parseFuncName l = Inr (f, False)"
    with takeLocation_rest [of ?v3 ls] show ?thesis unfolding rest by auto
  qed
qed

lemma stack_lines_invariants:
  assumes "fst (stack_lines h body) = Inr s"
  shows "list_all (\<lambda>e. \<not> IsSource e) (butlast (entries s))"
    and "\<And>f. f \<in> allFunctions s \<Longrightarrow> \<exists>l \<in> set body. parseFuncName l = Inr (f, False)"
proof -
  from assms obtain v where ll: "fst (lines_loop body locals_init) = Inr v"
    and s: "entries s = entries' v" "allFunctions s = funcs v"
    by (cases "lines_loop body locals_init")
       (auto simp: stack_lines_def split: sum.splits)
  show "list_all (\<lambda>e. \<not> IsSource e) (butlast (entries s))"
    using lines_loop_entries [OF _ _ ll] by (simp add: s locals_init_def Entry_zero_def)
  show "\<exists>l \<in> set body. parseFuncName l = Inr (f, False)" if "f \<in> allFunctions s" for f
    using lines_loop_funcs [OF ll, of f] that by (simp add: s locals_init_def)
qed

lemma butlast_no_source:
  "list_all (\<lambda>e. \<not> IsSource e) (butlast es) \<Longrightarrow> length (filter IsSource es) \<le> 1"
proof (cases es rule: rev_cases)
  case Nil
  then show ?thesis by simp
next
  case (snoc xs x)
  assume "list_all (\<lambda>e. \<not> IsSource e) (butlast es)"
  with snoc have "filter IsSource xs = []"
    by (simp add: filter_empty_conv list_all_iff)
  with snoc show ?thesis by simp
qed

subsection \<open>The frames of a stack\<close>

text \<open>
  The frames of a stack body, as the grammar of the spec groups its lines (rules 3, 4
  and 8), written without reference to the parser: blank and elided-frames lines are
  dropped, every other line is a call line, and it owns the next line as its location
  exactly when that line starts with a tab.
\<close>

fun spec_frames :: "string list \<Rightarrow> (string \<times> string option) list" where
  "spec_frames [] = []"
| "spec_frames [l] = (if is_skipped l then [] else [(l, None)])"
| "spec_frames (l # t # ts) =
     (if is_skipped l then spec_frames (t # ts)
      else if is_location t then (l, Some t) # spec_frames ts
      else (l, None) # spec_frames (t # ts))"

text \<open>The entries of the frames that have a location line; a frame is a creator frame when
  its call line starts with \<open>created by \<close>.\<close>

definition frame_entries :: "(string \<times> string option) list \<Rightarrow> Entry list" where
  "frame_entries frames =
     concat (map (\<lambda>(l, loc). case loc of
                    None \<Rightarrow> []
                  | Some t \<Rightarrow> [\<lparr>FunctionCall = l, Location = t,
                               IsSource = HasPrefix l ''created by ''\<rparr>]) frames)"

text \<open>The function names of the ordinary (non-creator) call lines, in order, with or
  without a location line.\<close>

definition ordinary_names :: "(string \<times> string option) list \<Rightarrow> string list" where
  "ordinary_names frames =
     concat (map (\<lambda>(l, loc). case parseFuncName l of
                    Inl err \<Rightarrow> []
                  | Inr (f, creator) \<Rightarrow> if creator then [] else [f]) frames)"

definition first_name :: "string list \<Rightarrow> string" where
  "first_name names = (case names of [] \<Rightarrow> [] | f # _ \<Rightarrow> f)"

lemma parseFuncName_Inr:
  "parseFuncName l = Inr (f, c) \<Longrightarrow> f \<noteq> [] \<and> c = HasPrefix l ''created by ''"
  by (auto simp: parseFuncName_def CutPrefix_def Let_def split: option.splits if_splits)

lemma spec_frames_skip: "is_skipped l \<Longrightarrow> spec_frames (l # c) = spec_frames c"
  by (cases c) simp_all

lemma spec_frames_loc:
  "\<not> is_skipped l \<Longrightarrow> is_location t \<Longrightarrow> spec_frames (l # t # c) = (l, Some t) # spec_frames c"
  by simp

lemma spec_frames_noloc:
  "\<not> is_skipped l \<Longrightarrow> c = [] \<or> \<not> is_location (hd c) \<Longrightarrow>
   spec_frames (l # c) = (l, None) # spec_frames c"
  by (cases c) auto

lemma frame_entries_simps [simp]:
  "frame_entries [] = []"
  "frame_entries ((l, None) # fs) = frame_entries fs"
  "frame_entries ((l, Some t) # fs) =
     \<lparr>FunctionCall = l, Location = t, IsSource = HasPrefix l ''created by ''\<rparr> # frame_entries fs"
  by (simp_all add: frame_entries_def)

lemma ordinary_names_simps [simp]:
  "ordinary_names [] = []"
  "parseFuncName l = Inr (f, False) \<Longrightarrow> ordinary_names ((l, loc) # fs) = f # ordinary_names fs"
  "parseFuncName l = Inr (f, True) \<Longrightarrow> ordinary_names ((l, loc) # fs) = ordinary_names fs"
  by (simp_all add: ordinary_names_def)

lemma first_name_simps [simp]: "first_name [] = []" "first_name (f # fs) = f"
  by (simp_all add: first_name_def)

lemma addLocation_simps [simp]:
  "entries' (addLocation v t) = entries' v @ [(currentEntry v)\<lparr>Location := t\<rparr>]"
  "funcs (addLocation v t) = funcs v"
  "firstFunction' (addLocation v t) = firstFunction' v"
  "currentEntry (addLocation v t) = (currentEntry v)\<lparr>Location := t\<rparr>"
  by (simp_all add: addLocation_def)

lemma recordCall_entry:
  "\<not> IsSource (currentEntry v) \<Longrightarrow>
   (currentEntry (recordCall v l f c))\<lparr>Location := t\<rparr> =
     \<lparr>FunctionCall = l, Location = t, IsSource = c\<rparr>"
  by (cases "currentEntry v") (simp add: recordCall_def Let_def)

lemma consumed_unique: "a @ r = b @ r \<Longrightarrow> a = b"
  by simp

lemma lines_loop_frames:
  "fst (lines_loop ls v) = Inr v' \<Longrightarrow> ls = consumed @ snd (lines_loop ls v) \<Longrightarrow>
   \<not> IsSource (currentEntry v) \<Longrightarrow>
   entries' v' = entries' v @ frame_entries (spec_frames consumed) \<and>
   funcs v' = funcs v \<union> set (ordinary_names (spec_frames consumed)) \<and>
   firstFunction' v' =
     (if firstFunction' v = [] then first_name (ordinary_names (spec_frames consumed))
      else firstFunction' v)"
proof (induction ls v arbitrary: consumed rule: lines_loop_cases)
  case (eof v)
  then show ?case by simp
next
  case (header l ls v)
  then show ?case by (simp add: lines_loop_header)
next
  case (skip l ls v)
  let ?v1 = "v\<lparr>fullStack' := fullStack' v @ l @ [newline]\<rparr>"
  from skip(5) have c: "l # ls = consumed @ snd (lines_loop ls ?v1)"
    by (simp add: lines_loop_skip [OF skip(1,2)])
  obtain c' where c': "ls = c' @ snd (lines_loop ls ?v1)"
    using lines_loop_consumes [of ls ?v1] by blast
  with c have "consumed @ snd (lines_loop ls ?v1) = (l # c') @ snd (lines_loop ls ?v1)"
    by simp
  then have cons: "consumed = l # c'" by (rule consumed_unique)
  from skip(4) have r: "fst (lines_loop ls ?v1) = Inr v'"
    by (simp add: lines_loop_skip [OF skip(1,2)])
  from skip(3) [OF r c'] skip(6) show ?case
    by (simp add: cons spec_frames_skip [OF skip(2)])
next
  case (bad l ls v err)
  then show ?case by (simp add: lines_loop_bad)
next
  case (creator l ls v f)
  let ?v3 = "recordCall (v\<lparr>fullStack' := fullStack' v @ l @ [newline]\<rparr>) l f True"
  note eq = lines_loop_creator [OF creator(1-3), of ls v]
  from parseFuncName_Inr [OF creator(3)] have cb: "HasPrefix l ''created by ''" by simp
  show ?case
  proof (cases rule: takeLocation_cases [of ?v3 ls])
    case none
    with creator(4,5) eq have v': "v' = ?v3" and c: "l # ls = consumed @ ls" by simp_all
    from c have "consumed @ ls = [l] @ ls" by simp
    then have cons: "consumed = [l]" by (rule consumed_unique)
    have sf: "spec_frames [l] = [(l, None)]" using creator(2) by simp
    have names: "ordinary_names [(l, None)] = []" using creator(3) by simp
    show ?thesis
      unfolding v' cons sf names by simp
  next
    case (loc t ts)
    with creator(4,5) eq have v': "v' = addLocation ?v3 t" and c: "l # ls = consumed @ ts"
      by simp_all
    from c loc(1) have "consumed @ ts = [l, t] @ ts" by simp
    then have cons: "consumed = [l, t]" by (rule consumed_unique)
    have e: "(currentEntry ?v3)\<lparr>Location := t\<rparr> =
               \<lparr>FunctionCall = l, Location = t, IsSource = True\<rparr>"
      using creator(6) by (simp add: recordCall_entry)
    have sf: "spec_frames [l, t] = [(l, Some t)]"
      using creator(2) loc(2) by simp
    have names: "ordinary_names [(l, Some t)] = []"
      using creator(3) by simp
    show ?thesis
      unfolding v' cons sf names using cb by (simp add: e)
  qed
next
  case (call l ls v f v4 rest)
  let ?v3 = "recordCall (v\<lparr>fullStack' := fullStack' v @ l @ [newline]\<rparr>) l f False"
  have eq: "lines_loop (l # ls) v = lines_loop rest v4"
    by (simp add: lines_loop_call [OF call(1-3)] call(4))
  from call(6) have r: "fst (lines_loop rest v4) = Inr v'" by (simp add: eq)
  from call(7) have c: "l # ls = consumed @ snd (lines_loop rest v4)" by (simp add: eq)
  obtain c' where c': "rest = c' @ snd (lines_loop rest v4)"
    using lines_loop_consumes [of rest v4] by blast
  from parseFuncName_Inr [OF call(3)] have ncb: "\<not> HasPrefix l ''created by ''" and fne: "f \<noteq> []"
    by simp_all
  show ?case
  proof (cases rule: takeLocation_cases [of ?v3 ls])
    case none
    with call(4) have v4: "v4 = ?v3" and rest: "rest = ls" by simp_all
    from c c' rest have "consumed @ snd (lines_loop rest v4) = (l # c') @ snd (lines_loop rest v4)"
      by simp
    then have cons: "consumed = l # c'" by (rule consumed_unique)
    have "c' = [] \<or> \<not> is_location (hd c')"
    proof (cases c')
      case Nil
      then show ?thesis by simp
    next
      case (Cons x xs)
      have "hd (c' @ snd (lines_loop rest v4)) = x" "c' @ snd (lines_loop rest v4) \<noteq> []"
        using Cons by simp_all
      with c' have "hd rest = x" "rest \<noteq> []" by metis+
      with none(2) Cons show ?thesis unfolding rest by simp
    qed
    note sf = spec_frames_noloc [OF call(2) this]
    have src: "\<not> IsSource (currentEntry v4)" using call(8) by (simp add: v4)
    have names: "ordinary_names ((l, None) # spec_frames c') = f # ordinary_names (spec_frames c')"
      using call(3) by simp
    from call(5) [OF r c' src] show ?thesis
      unfolding cons sf names v4 using fne by simp
  next
    case (loc t ts)
    with call(4) have v4: "v4 = addLocation ?v3 t" and rest: "rest = ts" by simp_all
    from c c' rest loc(1)
    have "consumed @ snd (lines_loop rest v4) = (l # t # c') @ snd (lines_loop rest v4)"
      by simp
    then have cons: "consumed = l # t # c'" by (rule consumed_unique)
    note sf = spec_frames_loc [OF call(2) loc(2), of c']
    have src: "\<not> IsSource (currentEntry v4)"
      using call(8) by (simp add: v4 addLocation_def)
    have e: "(currentEntry ?v3)\<lparr>Location := t\<rparr> =
               \<lparr>FunctionCall = l, Location = t, IsSource = False\<rparr>"
      using call(8) by (simp add: recordCall_entry)
    have names: "ordinary_names ((l, Some t) # spec_frames c') = f # ordinary_names (spec_frames c')"
      using call(3) by simp
    from call(5) [OF r c' src] show ?thesis
      unfolding cons sf names v4 using fne ncb by (simp add: e)
  qed
qed

lemma spec_frames_lines: "(l, loc) \<in> set (spec_frames c) \<Longrightarrow> l \<in> set c"
  by (induction c rule: spec_frames.induct) (auto split: if_splits)

lemma ordinary_names_lines:
  "f \<in> set (ordinary_names (spec_frames c)) \<Longrightarrow> \<exists>l \<in> set c. parseFuncName l = Inr (f, False)"
  by (auto simp: ordinary_names_def split: sum.splits if_splits dest: spec_frames_lines)

lemma stack_lines_frames:
  assumes "fst (stack_lines h body) = Inr s" and "body = consumed @ snd (stack_lines h body)"
  shows "parseGoStackHeader h = Inr (id' s, state s)"
    and "list_all (\<lambda>l. \<not> is_header l) consumed"
    and "fullStack s = terminated consumed"
    and "entries s = frame_entries (spec_frames consumed)"
    and "allFunctions s = set (ordinary_names (spec_frames consumed))"
    and "firstFunction s = first_name (ordinary_names (spec_frames consumed))"
proof -
  from assms(1) obtain n st v where hd: "parseGoStackHeader h = Inr (n, st)"
    and ll: "fst (lines_loop body locals_init) = Inr v"
    and rest: "snd (stack_lines h body) = snd (lines_loop body locals_init)"
    and s: "s = \<lparr>id' = n, state = st, firstFunction = firstFunction' v,
                 allFunctions = funcs v, fullStack = fullStack' v, entries = entries' v\<rparr>"
    by (cases "lines_loop body locals_init")
       (auto simp: stack_lines_def split: sum.splits)
  from assms(2) rest have c: "body = consumed @ snd (lines_loop body locals_init)" by simp
  from lines_loop_consumes [of body locals_init] obtain c' where
    c': "body = c' @ snd (lines_loop body locals_init)"
    "list_all (\<lambda>l. \<not> is_header l) c'"
    "\<forall>v'. fst (lines_loop body locals_init) = Inr v' \<longrightarrow>
        fullStack' v' = fullStack' locals_init @ terminated c'"
    by blast
  from c c'(1) have "consumed @ snd (lines_loop body locals_init)
      = c' @ snd (lines_loop body locals_init)" by simp
  then have eq: "consumed = c'" by (rule consumed_unique)
  show "parseGoStackHeader h = Inr (id' s, state s)" by (simp add: hd s)
  show "list_all (\<lambda>l. \<not> is_header l) consumed" using c'(2) eq by simp
  show "fullStack s = terminated consumed"
    using c'(3) ll eq by (simp add: s locals_init_def)
  note fr = lines_loop_frames [OF ll c, unfolded locals_init_def Entry_zero_def, simplified]
  show "entries s = frame_entries (spec_frames consumed)" using fr by (simp add: s)
  show "allFunctions s = set (ordinary_names (spec_frames consumed))" using fr by (simp add: s)
  show "firstFunction s = first_name (ordinary_names (spec_frames consumed))"
    using fr by (simp add: s)
qed

lemma parse_lines_stack_position:
  "s \<in> set (fst (parse_lines ls)) \<Longrightarrow>
   \<exists>pre h body. ls = pre @ h # body \<and> is_header h \<and> fst (stack_lines h body) = Inr s"
proof (induction "length ls" arbitrary: ls rule: less_induct)
  case less
  show ?case
  proof (cases ls)
    case Nil
    with less.prems show ?thesis by simp
  next
    case (Cons l ls')
    have ih: "\<And>zs. length zs \<le> length ls' \<Longrightarrow> s \<in> set (fst (parse_lines zs)) \<Longrightarrow>
        \<exists>pre h body. zs = pre @ h # body \<and> is_header h \<and> fst (stack_lines h body) = Inr s"
      by (rule less.hyps) (simp_all add: Cons)
    have up: "\<exists>pre h body. l # ls' = pre @ h # body \<and> is_header h \<and> fst (stack_lines h body) = Inr s"
      if "ls' = a @ zs" "\<exists>pre h body. zs = pre @ h # body \<and> is_header h \<and> fst (stack_lines h body) = Inr s"
      for a zs
    proof -
      from that(2) obtain pre h body where z: "zs = pre @ h # body" "is_header h"
        "fst (stack_lines h body) = Inr s" by blast
      have "l # ls' = (l # a @ pre) @ h # body" by (simp add: that(1) z(1))
      with z(2,3) show ?thesis by blast
    qed
    show ?thesis
    proof (cases "is_header l")
      case False
      with less.prems have "s \<in> set (fst (parse_lines ls'))"
        by (simp add: Cons parse_lines_other)
      from up [of "[]" ls', OF _ ih [OF _ this]] show ?thesis by (simp add: Cons)
    next
      case True
      obtain r rest where sl: "stack_lines l ls' = (r, rest)"
        by (cases "stack_lines l ls'")
      have len: "length rest \<le> length ls'"
        using stack_lines_length [of l ls'] by (simp add: sl)
      obtain a where a: "ls' = a @ rest"
      proof -
        obtain consumed where c: "ls' = consumed @ snd (lines_loop ls' locals_init)"
          using lines_loop_consumes [of ls' locals_init] by blast
        have "rest = ls' \<or> rest = snd (lines_loop ls' locals_init)"
          using sl by (cases "lines_loop ls' locals_init")
            (auto simp: stack_lines_def split: sum.splits)
        then show ?thesis
        proof
          assume "rest = ls'"
          then show ?thesis using that [of "[]"] by simp
        next
          assume "rest = snd (lines_loop ls' locals_init)"
          with c show ?thesis using that [of consumed] by simp
        qed
      qed
      show ?thesis
      proof (cases r)
        case (Inl err)
        with less.prems True sl have "s \<in> set (fst (parse_lines rest))"
          by (simp add: Cons parse_lines_error [of l ls' err rest])
        from up [OF a ih [OF len this]] show ?thesis by (simp add: Cons)
      next
        case (Inr s0)
        with less.prems True sl have "s = s0 \<or> s \<in> set (fst (parse_lines rest))"
          by (simp add: Cons parse_lines_stack [of l ls' s0 rest])
        then show ?thesis
        proof
          assume "s = s0"
          with sl Inr have "fst (stack_lines l ls') = Inr s" by simp
          with True have "l # ls' = [] @ l # ls' \<and> is_header l \<and> fst (stack_lines l ls') = Inr s"
            by simp
          then show ?thesis unfolding Cons by blast
        next
          assume "s \<in> set (fst (parse_lines rest))"
          from up [OF a ih [OF len this]] show ?thesis by (simp add: Cons)
        qed
      qed
    qed
  qed
qed

lemma stack_lines_consumes:
  assumes "fst (stack_lines h body) = Inr s"
  shows "\<exists>c. body = c @ snd (stack_lines h body)"
proof -
  obtain c where c: "body = c @ snd (lines_loop body locals_init)"
    using lines_loop_consumes [of body locals_init] by blast
  have r: "snd (stack_lines h body) = snd (lines_loop body locals_init)"
    using assms by (cases "lines_loop body locals_init")
      (auto simp: stack_lines_def split: sum.splits)
  have "body = c @ snd (stack_lines h body)" unfolding r by (rule c)
  then show ?thesis by (rule exI)
qed

lemma Parse_stack_lines:
  assumes "s \<in> set (fst (ParseStack dump))"
  shows "\<exists>pre h consumed post.
           dump = pre @ h # consumed @ post \<and> is_header h \<and>
           fst (stack_lines h (consumed @ post)) = Inr s \<and>
           post = snd (stack_lines h (consumed @ post))"
proof -
  from assms have "s \<in> set (fst (parse_lines dump))"
    by (simp add: ParseStack_def Parse_parse_lines)
  then obtain pre h body where d: "dump = pre @ h # body" and h: "is_header h"
    and sl: "fst (stack_lines h body) = Inr s"
    using parse_lines_stack_position by blast
  obtain c where c: "body = c @ snd (lines_loop body locals_init)"
    using lines_loop_consumes [of body locals_init] by blast
  have r: "snd (stack_lines h body) = snd (lines_loop body locals_init)"
    using sl by (cases "lines_loop body locals_init")
      (auto simp: stack_lines_def split: sum.splits)
  let ?post = "snd (stack_lines h body)"
  have b: "body = c @ ?post" using c r by simp
  have "dump = pre @ h # c @ ?post \<and> is_header h \<and>
           fst (stack_lines h (c @ ?post)) = Inr s \<and>
           ?post = snd (stack_lines h (c @ ?post))"
    using d h sl b by simp
  then show ?thesis by blast
qed

subsection \<open>The stacks of a dump\<close>

definition worker_dump :: "string list" where
  "worker_dump =
     [''goroutine 8 [running]:'', ''main.worker()'', tab # ''/a/w.go:10 +0x1'',
      ''created by main.worker in goroutine 7'', tab # ''/a/w.go:20 +0x2'']"

text \<open>
  In this dump a goroutine running \<open>main.worker\<close> was started by \<open>main.worker\<close>: the name of
  the creator frame's function is in \<open>allFunctions\<close>, put there by the ordinary call line.
\<close>

theorem allFunctions_holds_creator_name:
  "map allFunctions (fst (ParseStack worker_dump)) = [{''main.worker''}] \<and>
   map entries (fst (ParseStack worker_dump))
     = [[\<lparr>FunctionCall = ''main.worker()'', Location = tab # ''/a/w.go:10 +0x1'',
          IsSource = False\<rparr>,
         \<lparr>FunctionCall = ''created by main.worker in goroutine 7'',
          Location = tab # ''/a/w.go:20 +0x2'', IsSource = True\<rparr>]] \<and>
   parseFuncName ''created by main.worker in goroutine 7'' = Inr (''main.worker'', True)"
  by code_simp

text \<open>
  C5, as the code has it. In every stack \<open>Parse\<close> returns, no entry but the last is a
  source entry, so there is at most one. The stack comes from a header line \<open>h\<close> of the
  dump and the lines \<open>consumed\<close> for it right after \<open>h\<close> (its own lines: they hold no
  header, \<open>fullStack\<close> is their text, and \<open>parseStack\<close> started on them with \<open>h\<close>
  returns this very stack and stops in front of the rest of the dump), and \<open>allFunctions\<close>
  is exactly the set of the function names of the ordinary call lines among these: every
  name in it is the name \<open>parseFuncName\<close> gives, as a non-creator, to a line of this same
  stack. A creator line adds nothing to the set, and neither does any line of another
  stack.
\<close>

theorem Parse_source_entry_last:
  assumes "s \<in> set (fst (ParseStack dump))"
  shows "length (filter IsSource (entries s)) \<le> 1 \<and>
         list_all (\<lambda>e. \<not> IsSource e) (butlast (entries s)) \<and>
         (\<exists>pre h consumed post.
            dump = pre @ h # consumed @ post \<and>
            is_header h \<and> parseGoStackHeader h = Inr (id' s, state s) \<and>
            list_all (\<lambda>l. \<not> is_header l) consumed \<and>
            fullStack s = terminated consumed \<and>
            fst (parseStack (newScanner (consumed @ post)) h) = Inr s \<and>
            unread (snd (parseStack (newScanner (consumed @ post)) h)) = post \<and>
            allFunctions s = set (ordinary_names (spec_frames consumed)) \<and>
            (\<forall>f \<in> allFunctions s. \<exists>l \<in> set consumed. parseFuncName l = Inr (f, False)))"
proof -
  from Parse_stack_lines [OF assms] obtain pre h consumed post where
    d: "dump = pre @ h # consumed @ post" and h: "is_header h"
    and sl: "fst (stack_lines h (consumed @ post)) = Inr s"
    and post: "post = snd (stack_lines h (consumed @ post))"
    by blast
  have b: "consumed @ post = consumed @ snd (stack_lines h (consumed @ post))"
    using post by simp
  note fr = stack_lines_frames [OF sl b]
  have last: "list_all (\<lambda>e. \<not> IsSource e) (butlast (entries s))"
    using stack_lines_invariants(1) [OF sl] .
  have ps1: "fst (parseStack (newScanner (consumed @ post)) h) = Inr s"
    using parseStack_lines [of "newScanner (consumed @ post)" h] sl by simp
  have ps2: "unread (snd (parseStack (newScanner (consumed @ post)) h)) = post"
    using parseStack_lines [of "newScanner (consumed @ post)" h] post by simp
  have own: "\<forall>f \<in> allFunctions s. \<exists>l \<in> set consumed. parseFuncName l = Inr (f, False)"
    using ordinary_names_lines [of _ consumed] by (simp add: fr(5))
  have "dump = pre @ h # consumed @ post \<and>
        is_header h \<and> parseGoStackHeader h = Inr (id' s, state s) \<and>
        list_all (\<lambda>l. \<not> is_header l) consumed \<and>
        fullStack s = terminated consumed \<and>
        fst (parseStack (newScanner (consumed @ post)) h) = Inr s \<and>
        unread (snd (parseStack (newScanner (consumed @ post)) h)) = post \<and>
        allFunctions s = set (ordinary_names (spec_frames consumed)) \<and>
        (\<forall>f \<in> allFunctions s. \<exists>l \<in> set consumed. parseFuncName l = Inr (f, False))"
    by (intro conjI)
       (rule d, rule h, rule fr(1), rule fr(2), rule fr(3), rule ps1, rule ps2, rule fr(5), rule own)
  then have ex: "\<exists>pre h consumed post.
        dump = pre @ h # consumed @ post \<and>
        is_header h \<and> parseGoStackHeader h = Inr (id' s, state s) \<and>
        list_all (\<lambda>l. \<not> is_header l) consumed \<and>
        fullStack s = terminated consumed \<and>
        fst (parseStack (newScanner (consumed @ post)) h) = Inr s \<and>
        unread (snd (parseStack (newScanner (consumed @ post)) h)) = post \<and>
        allFunctions s = set (ordinary_names (spec_frames consumed)) \<and>
        (\<forall>f \<in> allFunctions s. \<exists>l \<in> set consumed. parseFuncName l = Inr (f, False))"
    by (intro exI)
  show ?thesis
    by (intro conjI) (rule butlast_no_source [OF last], rule last, rule ex)
qed

theorem Parse_source_entry_last_witness:
  "hd (fst (ParseStack worker_dump)) \<in> set (fst (ParseStack worker_dump)) \<and>
   length (filter IsSource (entries (hd (fst (ParseStack worker_dump))))) \<le> 1 \<and>
   list_all (\<lambda>e. \<not> IsSource e) (butlast (entries (hd (fst (ParseStack worker_dump))))) \<and>
   (\<exists>pre h consumed post.
      worker_dump = pre @ h # consumed @ post \<and>
      parseGoStackHeader h = Inr (8, ''running'') \<and>
      fullStack (hd (fst (ParseStack worker_dump))) = terminated consumed \<and>
      {''main.worker''} = set (ordinary_names (spec_frames consumed)))"
proof -
  have m: "hd (fst (ParseStack worker_dump)) \<in> set (fst (ParseStack worker_dump))"
    by code_simp
  have f: "allFunctions (hd (fst (ParseStack worker_dump))) = {''main.worker''}"
    "id' (hd (fst (ParseStack worker_dump))) = 8"
    "state (hd (fst (ParseStack worker_dump))) = ''running''"
    by code_simp+
  note r = Parse_source_entry_last [OF m, unfolded f]
  from r have a: "length (filter IsSource (entries (hd (fst (ParseStack worker_dump))))) \<le> 1"
    by (rule conjunct1)
  from r have b: "list_all (\<lambda>e. \<not> IsSource e) (butlast (entries (hd (fst (ParseStack worker_dump)))))"
    by (rule conjunct2 [THEN conjunct1])
  from r obtain pre h consumed post where
    c: "worker_dump = pre @ h # consumed @ post"
       "parseGoStackHeader h = Inr (8, ''running'')"
       "fullStack (hd (fst (ParseStack worker_dump))) = terminated consumed"
       "{''main.worker''} = set (ordinary_names (spec_frames consumed))"
    by (elim conjE exE) (rule that, assumption+)
  have "worker_dump = pre @ h # consumed @ post \<and>
      parseGoStackHeader h = Inr (8, ''running'') \<and>
      fullStack (hd (fst (ParseStack worker_dump))) = terminated consumed \<and>
      {''main.worker''} = set (ordinary_names (spec_frames consumed))"
    by (intro conjI) (rule c(1), rule c(2), rule c(3), rule c(4))
  then have ex: "\<exists>pre h consumed post.
      worker_dump = pre @ h # consumed @ post \<and>
      parseGoStackHeader h = Inr (8, ''running'') \<and>
      fullStack (hd (fst (ParseStack worker_dump))) = terminated consumed \<and>
      {''main.worker''} = set (ordinary_names (spec_frames consumed))"
    by (intro exI)
  show ?thesis
    by (intro conjI) (rule m, rule a, rule b, rule ex)
qed

section \<open>A call line without a location line\<close>

text \<open>
  C9. Group the lines \<open>parseStack\<close> consumed for a stack into frames as the grammar
  does: a call line owns the next line as its location exactly when that line starts
  with a tab. The stack \<open>parseStack\<close> returns has one entry for each frame that has a
  location line, in order, and none for a frame without one (ordinary or creator); its
  \<open>allFunctions\<close> is the set of the names of all ordinary frames, with or without a
  location line, and its \<open>firstFunction\<close> the first of these names.
\<close>

theorem parseStack_frames:
  assumes "parseStack sc line = (Inr s, sc')"
  shows "\<exists>consumed. unread sc = consumed @ unread sc' \<and>
           entries s = frame_entries (spec_frames consumed) \<and>
           allFunctions s = set (ordinary_names (spec_frames consumed)) \<and>
           firstFunction s = first_name (ordinary_names (spec_frames consumed))"
proof -
  from assms have sl: "fst (stack_lines line (unread sc)) = Inr s"
    and rest: "snd (stack_lines line (unread sc)) = unread sc'"
    using parseStack_lines [of sc line] by simp_all
  from stack_lines_consumes [OF sl] obtain consumed where
    c: "unread sc = consumed @ snd (stack_lines line (unread sc))" by (rule exE)
  note fr = stack_lines_frames(4-6) [OF sl c]
  have u: "unread sc = consumed @ unread sc'" using c unfolding rest .
  have "unread sc = consumed @ unread sc' \<and>
           entries s = frame_entries (spec_frames consumed) \<and>
           allFunctions s = set (ordinary_names (spec_frames consumed)) \<and>
           firstFunction s = first_name (ordinary_names (spec_frames consumed))"
    by (intro conjI) (rule u, rule fr(1), rule fr(2), rule fr(3))
  then show ?thesis by (rule exI)
qed

theorem parseStack_frames_witness:
  "parseStack (newScanner [''main.foo()'', ''main.bar()'', tab # ''/a/b.go:10 +0x1'',
                           ''created by main.run'', ''goroutine 2 [select]:''])
     ''goroutine 1 [running]:''
     = (Inr \<lparr>id' = 1, state = ''running'', firstFunction = ''main.foo'',
             allFunctions = {''main.foo'', ''main.bar''},
             fullStack = ''main.foo()'' @ [newline] @ ''main.bar()'' @ [newline]
                @ tab # ''/a/b.go:10 +0x1'' @ [newline] @ ''created by main.run'' @ [newline],
             entries = [\<lparr>FunctionCall = ''main.bar()'', Location = tab # ''/a/b.go:10 +0x1'',
                         IsSource = False\<rparr>]\<rparr>,
        Unscan (at_line ''goroutine 2 [select]:'' [])) \<and>
   spec_frames [''main.foo()'', ''main.bar()'', tab # ''/a/b.go:10 +0x1'', ''created by main.run'']
     = [(''main.foo()'', None), (''main.bar()'', Some (tab # ''/a/b.go:10 +0x1'')),
        (''created by main.run'', None)] \<and>
   [\<lparr>FunctionCall = ''main.bar()'', Location = tab # ''/a/b.go:10 +0x1'', IsSource = False\<rparr>]
     = frame_entries (spec_frames [''main.foo()'', ''main.bar()'', tab # ''/a/b.go:10 +0x1'',
                                   ''created by main.run'']) \<and>
   {''main.foo'', ''main.bar''}
     = set (ordinary_names (spec_frames [''main.foo()'', ''main.bar()'', tab # ''/a/b.go:10 +0x1'',
                                         ''created by main.run''])) \<and>
   ''main.foo''
     = first_name (ordinary_names (spec_frames [''main.foo()'', ''main.bar()'',
                                                tab # ''/a/b.go:10 +0x1'', ''created by main.run'']))"
proof -
  have e: "parseStack (newScanner [''main.foo()'', ''main.bar()'', tab # ''/a/b.go:10 +0x1'',
                           ''created by main.run'', ''goroutine 2 [select]:''])
     ''goroutine 1 [running]:''
     = (Inr \<lparr>id' = 1, state = ''running'', firstFunction = ''main.foo'',
             allFunctions = {''main.foo'', ''main.bar''},
             fullStack = ''main.foo()'' @ [newline] @ ''main.bar()'' @ [newline]
                @ tab # ''/a/b.go:10 +0x1'' @ [newline] @ ''created by main.run'' @ [newline],
             entries = [\<lparr>FunctionCall = ''main.bar()'', Location = tab # ''/a/b.go:10 +0x1'',
                         IsSource = False\<rparr>]\<rparr>,
        Unscan (at_line ''goroutine 2 [select]:'' []))"
    by code_simp
  have u: "unread (newScanner [''main.foo()'', ''main.bar()'', tab # ''/a/b.go:10 +0x1'',
                           ''created by main.run'', ''goroutine 2 [select]:''])
      = [''main.foo()'', ''main.bar()'', tab # ''/a/b.go:10 +0x1'', ''created by main.run'']
        @ [''goroutine 2 [select]:'']"
    by simp
  have u': "unread (Unscan (at_line ''goroutine 2 [select]:'' [])) = [''goroutine 2 [select]:'']"
    by simp
  have f: "spec_frames [''main.foo()'', ''main.bar()'', tab # ''/a/b.go:10 +0x1'', ''created by main.run'']
     = [(''main.foo()'', None), (''main.bar()'', Some (tab # ''/a/b.go:10 +0x1'')),
        (''created by main.run'', None)]"
    by code_simp
  from parseStack_frames [OF e, unfolded Stack.select_convs u u'] obtain consumed where
    c: "[''main.foo()'', ''main.bar()'', tab # ''/a/b.go:10 +0x1'', ''created by main.run'']
          @ [''goroutine 2 [select]:''] = consumed @ [''goroutine 2 [select]:'']"
    and r: "[\<lparr>FunctionCall = ''main.bar()'', Location = tab # ''/a/b.go:10 +0x1'', IsSource = False\<rparr>]
          = frame_entries (spec_frames consumed)"
        "{''main.foo'', ''main.bar''} = set (ordinary_names (spec_frames consumed))"
        "''main.foo'' = first_name (ordinary_names (spec_frames consumed))"
    by (elim exE conjE) (rule that, assumption+)
  from c have eq: "consumed = [''main.foo()'', ''main.bar()'', tab # ''/a/b.go:10 +0x1'', ''created by main.run'']"
    by (rule consumed_unique [symmetric])
  note r1 = r(1) [unfolded eq] and r2 = r(2) [unfolded eq] and r3 = r(3) [unfolded eq]
  show ?thesis
    by (intro conjI) (rule e, rule f, rule r1, rule r2, rule r3)
qed

section \<open>PrettyPrint on a creator line without a goroutine id\<close>

lemma FindStringSubmatch_length: "FindStringSubmatch s = Some ms \<Longrightarrow> length ms = 2"
  by (induction s) (auto simp: Let_def split: if_splits)

lemma PrettyPrint_panic_iff:
  "(PrettyPrint L fs s = Inl (IndexOutOfRange 1 0)) =
     (case find IsSource (entries s) of
        None \<Rightarrow> False
      | Some src \<Rightarrow> FindStringSubmatch (FunctionCall src) = None)"
  by (auto simp: PrettyPrint_def Let_def split: option.splits dest: FindStringSubmatch_length)

lemma PrettyPrint_total:
  "PrettyPrint L fs s = Inl (IndexOutOfRange 1 0) \<or> (\<exists>text. PrettyPrint L fs s = Inr text)"
  by (auto simp: PrettyPrint_def Let_def split: option.splits dest: FindStringSubmatch_length)

text \<open>
  C10: \<open>PrettyPrint\<close> panics with an index out of range exactly when the stack has a
  source entry and the call text of the first one holds no \<open>goroutine <digits>\<close>; in every
  other case it returns its text. The parser builds such a stack from a creator line
  \<open>created by X\<close> with no \<open> in goroutine G\<close> after it.
\<close>

theorem PrettyPrint_panics_without_goroutine_id:
  "(PrettyPrint L fs s = Inl (IndexOutOfRange 1 0)) =
     (case find IsSource (entries s) of
        None \<Rightarrow> False
      | Some src \<Rightarrow> FindStringSubmatch (FunctionCall src) = None) \<and>
   (PrettyPrint L fs s = Inl (IndexOutOfRange 1 0) \<or> (\<exists>text. PrettyPrint L fs s = Inr text)) \<and>
   map (PrettyPrint L fs)
     (fst (ParseStack [''goroutine 5 [select]:'', ''main.run()'', tab # ''/a/r.go:7 +0x1'',
                       ''created by main.start'', tab # ''/a/r.go:3 +0x2'']))
     = [Inl (IndexOutOfRange 1 0)]"
proof -
  let ?src = "\<lparr>FunctionCall = ''created by main.start'', Location = tab # ''/a/r.go:3 +0x2'',
                     IsSource = True\<rparr>"
  let ?s = "\<lparr>id' = 5, state = ''select'', firstFunction = ''main.run'',
        allFunctions = {''main.run''},
        fullStack = ''main.run()'' @ [newline] @ tab # ''/a/r.go:7 +0x1'' @ [newline]
           @ ''created by main.start'' @ [newline] @ tab # ''/a/r.go:3 +0x2'' @ [newline],
        entries = [\<lparr>FunctionCall = ''main.run()'', Location = tab # ''/a/r.go:7 +0x1'',
                     IsSource = False\<rparr>, ?src]\<rparr>"
  have c: "fst (ParseStack [''goroutine 5 [select]:'', ''main.run()'', tab # ''/a/r.go:7 +0x1'',
                       ''created by main.start'', tab # ''/a/r.go:3 +0x2'']) = [?s]"
    by code_simp
  have d: "FindStringSubmatch ''created by main.start'' = None"
    by code_simp
  have f: "find IsSource (entries ?s) = Some ?src" by simp
  have g: "FindStringSubmatch (FunctionCall ?src) = None"
    by (simp only: Entry.simps d)
  have "PrettyPrint L fs ?s = Inl (IndexOutOfRange 1 0)"
    by (simp only: PrettyPrint_panic_iff f option.case g)
  then have e: "map (PrettyPrint L fs)
     (fst (ParseStack [''goroutine 5 [select]:'', ''main.run()'', tab # ''/a/r.go:7 +0x1'',
                       ''created by main.start'', tab # ''/a/r.go:3 +0x2'']))
     = [Inl (IndexOutOfRange 1 0)]"
    unfolding c by simp
  from PrettyPrint_panic_iff [of L fs s] PrettyPrint_total [of L fs s] e
  show ?thesis by blast
qed

section \<open>A creator line with a goroutine id\<close>

lemma HasPrefix_append [simp]: "HasPrefix (p @ s) p"
  by (simp add: HasPrefix_def)

lemma HasPrefix_split: "HasPrefix s p \<Longrightarrow> \<exists>t. s = p @ t"
  by (metis HasPrefix_def append_take_drop_id)

lemma no_blank_split:
  "CHR '' '' \<notin> set a \<Longrightarrow> CHR '' '' \<notin> set b \<Longrightarrow> a @ CHR '' '' # c = b @ CHR '' '' # d \<Longrightarrow>
   a = b \<and> c = d"
proof (induction a arbitrary: b)
  case Nil
  then show ?case by (cases b) auto
next
  case (Cons x a)
  then show ?case by (cases b) auto
qed

lemma Atoi_digits:
  assumes "G \<noteq> []" "list_all is_digit G" "digits_val G < 2 ^ 63"
  shows "Atoi G = Some (int (digits_val G))"
proof -
  from assms(1,2) have "is_digit (hd G)" by (cases G) simp_all
  then have sign: "hd G \<noteq> CHR ''-''" "hd G \<noteq> CHR ''+''"
    by (auto simp: is_digit_def)
  have "int (digits_val G) < 2 ^ 63"
    using assms(3) by simp
  then have range: "\<not> (int (digits_val G) < - (2 ^ 63) \<or> 2 ^ 63 - 1 < int (digits_val G))"
    by linarith
  show ?thesis
    unfolding Atoi_def Let_def using assms(1,2) sign range by (simp only: simp_thms if_False if_True)
qed

lemma FindStringSubmatch_created_by:
  "FindStringSubmatch (''created by '' @ s) = FindStringSubmatch s"
  by (simp add: HasPrefix_def)

lemma takeWhile_digits: "list_all is_digit G \<Longrightarrow> takeWhile is_digit G = G"
  by (induction G) simp_all

lemma FindStringSubmatch_goroutine:
  "G \<noteq> [] \<Longrightarrow> list_all is_digit G \<Longrightarrow>
   FindStringSubmatch (''goroutine '' @ G) = Some [''goroutine '' @ G, G]"
  by (simp add: HasPrefix_def takeWhile_digits)

lemma FindStringSubmatch_in_goroutine:
  assumes "G \<noteq> []" "list_all is_digit G"
  shows "FindStringSubmatch ('' in goroutine '' @ G) = Some [''goroutine '' @ G, G]"
proof -
  have "FindStringSubmatch ('' in goroutine '' @ G) = FindStringSubmatch (''goroutine '' @ G)"
    by (simp add: HasPrefix_def)
  with FindStringSubmatch_goroutine [OF assms] show ?thesis by simp
qed

lemma FindStringSubmatch_name:
  assumes "CHR '' '' \<notin> set X" "G \<noteq> []" "list_all is_digit G"
  shows "FindStringSubmatch (X @ '' in goroutine '' @ G) = Some [''goroutine '' @ G, G]"
  using assms(1)
proof (induction X)
  case Nil
  show ?case using FindStringSubmatch_in_goroutine [OF assms(2,3)] by simp
next
  case (Cons x X)
  let ?S = "''in goroutine '' @ G"
  have no: "\<not> (HasPrefix ((x # X) @ '' in goroutine '' @ G) ''goroutine '' \<and>
              takeWhile is_digit (drop 10 ((x # X) @ '' in goroutine '' @ G)) \<noteq> [])"
  proof
    assume h: "HasPrefix ((x # X) @ '' in goroutine '' @ G) ''goroutine '' \<and>
              takeWhile is_digit (drop 10 ((x # X) @ '' in goroutine '' @ G)) \<noteq> []"
    then obtain t where "(x # X) @ '' in goroutine '' @ G = ''goroutine '' @ t"
      using HasPrefix_split by blast
    then have "(x # X) @ CHR '' '' # ?S = ''goroutine'' @ CHR '' '' # t" by simp
    from no_blank_split [OF _ _ this] Cons.prems have "x # X = ''goroutine''" by simp
    then have "drop 10 ((x # X) @ '' in goroutine '' @ G) = ?S" by simp
    with h show False by (simp add: is_digit_def)
  qed
  from Cons have "FindStringSubmatch (X @ '' in goroutine '' @ G) = Some [''goroutine '' @ G, G]"
    by simp
  with no show ?case
    by (simp only: append_Cons FindStringSubmatch.simps Let_def if_False)
qed

lemma Index_name:
  "CHR '' '' \<notin> set X \<Longrightarrow> Index (X @ '' in goroutine '' @ G) '' in goroutine'' = Some (length X)"
proof (induction X)
  case Nil
  show ?case by (simp add: HasPrefix_def)
next
  case (Cons x X)
  then have "x \<noteq> CHR '' ''" by auto
  then have "\<not> HasPrefix (x # X @ '' in goroutine '' @ G) '' in goroutine''"
    by (auto simp: HasPrefix_def)
  with Cons show ?case by simp
qed

lemma parseFuncName_creator:
  assumes "X \<noteq> []" "CHR '' '' \<notin> set X"
  shows "parseFuncName (''created by '' @ X @ '' in goroutine '' @ G) = Inr (X, True)"
proof -
  have "CutPrefix (''created by '' @ X @ '' in goroutine '' @ G) ''created by ''
          = Some (X @ '' in goroutine '' @ G)"
    by (simp add: CutPrefix_def HasPrefix_def)
  with Index_name [OF assms(2), of G] assms(1) show ?thesis
    by (simp add: parseFuncName_def)
qed

lemma SourceGoroutineID_entries_append:
  "list_all (\<lambda>e. \<not> IsSource e) es \<Longrightarrow>
   SourceGoroutineID_entries (es @ fs) = SourceGoroutineID_entries fs"
  by (induction es) simp_all

lemma find_source_append:
  "list_all (\<lambda>e. \<not> IsSource e) es \<Longrightarrow> find IsSource (es @ fs) = find IsSource fs"
  by (induction es) simp_all

lemma takeLocation_append_other:
  "ys = [] \<or> \<not> is_location (hd ys) \<Longrightarrow>
   takeLocation v (ls @ ys) = (fst (takeLocation v ls), snd (takeLocation v ls) @ ys)"
  by (cases ls; cases ys) (auto simp: takeLocation_def)

lemma lines_loop_continue:
  assumes ys: "ys = [] \<or> \<not> is_location (hd ys)"
  shows "lines_loop xs v = (Inr v', []) \<Longrightarrow> \<not> IsSource (currentEntry v') \<Longrightarrow>
         lines_loop (xs @ ys) v = lines_loop ys v'"
proof (induction xs v rule: lines_loop_cases)
  case (eof v)
  then show ?case by simp
next
  case (header l ls v)
  then show ?case by (simp add: lines_loop_header)
next
  case (skip l ls v)
  then show ?case by (simp add: lines_loop_skip)
next
  case (bad l ls v err)
  then show ?case by (simp add: lines_loop_bad)
next
  case (creator l ls v f)
  then show ?case by (auto simp: lines_loop_creator takeLocation_currentEntry)
next
  case (call l ls v f v4 rest)
  let ?v3 = "recordCall (v\<lparr>fullStack' := fullStack' v @ l @ [newline]\<rparr>) l f False"
  from call(6) have "lines_loop rest v4 = (Inr v', [])"
    by (simp add: lines_loop_call [OF call(1-3)] call(4))
  from call(5) [OF this call(7)] have ih: "lines_loop (rest @ ys) v4 = lines_loop ys v'" .
  have "takeLocation ?v3 (ls @ ys) = (v4, rest @ ys)"
    using takeLocation_append_other [OF ys, of ?v3 ls] call(4) by simp
  then show ?case
    using ih lines_loop_call [OF call(1-3), of "ls @ ys" v] by simp
qed

lemma lines_loop_no_source:
  "\<not> IsSource (currentEntry v) \<Longrightarrow> list_all (\<lambda>e. \<not> IsSource e) (entries' v) \<Longrightarrow>
   fst (lines_loop ls v) = Inr v' \<Longrightarrow> \<not> IsSource (currentEntry v') \<Longrightarrow>
   list_all (\<lambda>e. \<not> IsSource e) (entries' v')"
proof (induction ls v rule: lines_loop_cases)
  case (eof v)
  then show ?case by simp
next
  case (header l ls v)
  then show ?case by (simp add: lines_loop_header)
next
  case (skip l ls v)
  then show ?case by (simp add: lines_loop_skip)
next
  case (bad l ls v err)
  then show ?case by (simp add: lines_loop_bad)
next
  case (creator l ls v f)
  then show ?case by (auto simp: lines_loop_creator takeLocation_currentEntry)
next
  case (call l ls v f v4 rest)
  let ?v3 = "recordCall (v\<lparr>fullStack' := fullStack' v @ l @ [newline]\<rparr>) l f False"
  have v4: "v4 = fst (takeLocation ?v3 ls)" using call(4) by simp
  have a: "\<not> IsSource (currentEntry v4)"
    unfolding v4 using call(6) by (simp add: takeLocation_currentEntry)
  have b: "list_all (\<lambda>e. \<not> IsSource e) (entries' v4)"
    unfolding v4 using takeLocation_entries [of ?v3 ls] call(6,7) by auto
  from call(8) have "fst (lines_loop rest v4) = Inr v'"
    by (simp add: lines_loop_call [OF call(1-3)] call(4))
  from call(5) [OF a b this call(9)] show ?case .
qed

definition scenario_dump :: "string list" where
  "scenario_dump =
     [''goroutine 1 [running]:'', ''main.foo()'', tab # ''/a/b.go:10 +0x1'',
      ''goroutine 2 [chan receive]:'', ''created by main.spawn in goroutine 1'',
      tab # ''/a/b.go:20 +0x2'']"

text \<open>
  The dump of the spec's scenario: the second stack has source id 1, but the call text of
  its creator entry is the whole line, so stripping \<open>created by \<close> leaves
  \<open>main.spawn in goroutine 1\<close> and not \<open>main.spawn\<close>.
\<close>

theorem creator_call_text_keeps_goroutine_suffix:
  "map SourceGoroutineID (fst (ParseStack scenario_dump)) = [- 1, 1] \<and>
   map FunctionCall (map SourceEntry (fst (ParseStack scenario_dump)))
     = [[], ''created by main.spawn in goroutine 1''] \<and>
   TrimPrefix ''created by main.spawn in goroutine 1'' ''created by ''
     = ''main.spawn in goroutine 1'' \<and>
   ''main.spawn in goroutine 1'' \<noteq> ''main.spawn''"
  by code_simp

text \<open>
  C3, as the code has it. Take a dump with a stack whose header \<open>h\<close> parses, whose lines
  \<open>body\<close> before the creator line parse without error and without ending the stack, and
  whose creator line is \<open>created by X in goroutine G\<close> followed by a location line, \<open>X\<close> a
  non-empty name without blanks and \<open>G\<close> decimal digits of a value that fits an \<open>int\<close>.
  Then the stack is parsed, its \<open>SourceGoroutineID\<close> is \<open>G\<close>, its creator entry holds the
  whole creator line as call text, which without the prefix \<open>created by \<close> is
  \<open>X in goroutine G\<close>, and \<open>X\<close> is the function name \<open>parseFuncName\<close> computes for the line.
\<close>

theorem creator_line_source_id:
  assumes "HasPrefix h ''goroutine ''" and "parseGoStackHeader h = Inr (n, st)"
    and "parseLoop (newScanner body) locals_init = (Inr v, sc0)" and "unread sc0 = []"
    and "\<not> IsSource (currentEntry v)"
    and "X \<noteq> []" and "CHR '' '' \<notin> set X"
    and "G \<noteq> []" and "list_all is_digit G" and "digits_val G < 2 ^ 63"
    and "loc \<noteq> []" and "hd loc = tab"
  shows "\<exists>s ss.
      fst (ParseStack (h # body @ (''created by '' @ X @ '' in goroutine '' @ G) # loc # rest))
        = s # ss \<and>
      id' s = n \<and>
      SourceGoroutineID s = int (digits_val G) \<and>
      SourceEntry s = \<lparr>FunctionCall = ''created by '' @ X @ '' in goroutine '' @ G,
                        Location = loc, IsSource = True\<rparr> \<and>
      TrimPrefix (FunctionCall (SourceEntry s)) ''created by '' = X @ '' in goroutine '' @ G \<and>
      parseFuncName (''created by '' @ X @ '' in goroutine '' @ G) = Inr (X, True)"
proof -
  let ?c = "''created by '' @ X @ '' in goroutine '' @ G"
  let ?e = "\<lparr>FunctionCall = ?c, Location = loc, IsSource = True\<rparr>"
  let ?v1 = "v\<lparr>fullStack' := fullStack' v @ ?c @ [newline]\<rparr>"
  let ?v4 = "addLocation (recordCall ?v1 ?c X True) loc"
  let ?s = "\<lparr>id' = n, state = st, firstFunction = firstFunction' ?v4, allFunctions = funcs ?v4,
             fullStack = fullStack' ?v4, entries = entries' ?v4\<rparr>"
  have body: "lines_loop body locals_init = (Inr v, [])"
    using parseLoop_lines [of "newScanner body" locals_init] assms(3,4)
    by (cases "lines_loop body locals_init") simp
  have pf: "parseFuncName ?c = Inr (X, True)"
    using parseFuncName_creator [OF assms(6,7)] .
  have nl: "\<not> is_location ?c" by (simp add: is_location_def tab_def)
  have nh: "\<not> is_header ?c" by (simp add: is_header_def HasPrefix_def)
  have ns: "\<not> is_skipped ?c" by (simp add: is_skipped_def HasPrefix_def)
  have loc: "is_location loc" using assms(11,12) by (simp add: is_location_def)
  have "lines_loop (body @ ?c # loc # rest) locals_init = lines_loop (?c # loc # rest) v"
    using lines_loop_continue [OF _ body assms(5), of "?c # loc # rest"] nl by simp
  also have "\<dots> = (Inr ?v4, rest)"
  proof -
    have "takeLocation w (loc # rest) = (addLocation w loc, rest)" for w
      using loc by (simp add: takeLocation_def)
    then show ?thesis
      unfolding lines_loop_creator [OF nh ns pf] by simp
  qed
  finally have sl: "stack_lines h (body @ ?c # loc # rest) = (Inr ?s, rest)"
    by (simp add: stack_lines_def assms(2))
  have es: "entries ?s = entries' v @ [?e]"
    by (cases "currentEntry v") (simp add: addLocation_def recordCall_def)
  have clean: "list_all (\<lambda>e. \<not> IsSource e) (entries' v)"
    using lines_loop_no_source [of locals_init body v] body assms(5)
    by (simp add: locals_init_def Entry_zero_def)
  have fs: "FindStringSubmatch ?c = Some [''goroutine '' @ G, G]"
    using FindStringSubmatch_name [OF assms(7,8,9)]
    by (simp only: FindStringSubmatch_created_by)
  have sid: "SourceGoroutineID ?s = int (digits_val G)"
    unfolding SourceGoroutineID_def es
    using clean fs Atoi_digits [OF assms(8,9,10)]
    by (simp add: SourceGoroutineID_entries_append)
  have se: "SourceEntry ?s = ?e"
    unfolding SourceEntry_def es using clean by (simp add: find_source_append)
  have tp: "TrimPrefix (FunctionCall (SourceEntry ?s)) ''created by '' = X @ '' in goroutine '' @ G"
    unfolding se by (simp add: TrimPrefix_def HasPrefix_def)
  have "fst (ParseStack (h # body @ ?c # loc # rest)) = ?s # fst (parse_lines rest)"
    using parse_lines_stack [OF _ sl] assms(1)
    by (simp add: ParseStack_def Parse_parse_lines is_header_def)
  with sid se tp pf show ?thesis
    by (intro exI [of _ ?s] exI [of _ "fst (parse_lines rest)"]) simp
qed

theorem creator_line_source_id_witness:
  "HasPrefix ''goroutine 2 [chan receive]:'' ''goroutine '' \<and>
   parseGoStackHeader ''goroutine 2 [chan receive]:'' = Inr (2, ''chan receive'') \<and>
   ''main.spawn'' \<noteq> [] \<and> CHR '' '' \<notin> set ''main.spawn'' \<and>
   ''1'' \<noteq> [] \<and> list_all is_digit ''1'' \<and> digits_val ''1'' < 2 ^ 63 \<and>
   (\<exists>s ss.
      fst (ParseStack (''goroutine 2 [chan receive]:'' # [''main.bar()'', tab # ''/a/b.go:9 +0x1'']
             @ (''created by '' @ ''main.spawn'' @ '' in goroutine '' @ ''1'')
             # (tab # ''/a/b.go:20 +0x2'') # [''goroutine 3 [select]:'']))
        = s # ss \<and>
      id' s = 2 \<and> SourceGoroutineID s = 1 \<and>
      TrimPrefix (FunctionCall (SourceEntry s)) ''created by '' = ''main.spawn in goroutine 1'' \<and>
      parseFuncName ''created by main.spawn in goroutine 1'' = Inr (''main.spawn'', True))"
proof -
  have a: "HasPrefix ''goroutine 2 [chan receive]:'' ''goroutine ''"
    by (simp add: HasPrefix_def)
  have b: "parseGoStackHeader ''goroutine 2 [chan receive]:'' = Inr (2, ''chan receive'')"
    by code_simp
  have c: "parseLoop (newScanner [''main.bar()'', tab # ''/a/b.go:9 +0x1'']) locals_init =
     (Inr \<lparr>firstFunction' = ''main.bar'',
           fullStack' = ''main.bar()'' @ [newline] @ tab # ''/a/b.go:9 +0x1'' @ [newline],
           funcs = {''main.bar''},
           entries' = [\<lparr>FunctionCall = ''main.bar()'', Location = tab # ''/a/b.go:9 +0x1'',
                        IsSource = False\<rparr>],
           currentEntry = \<lparr>FunctionCall = ''main.bar()'', Location = tab # ''/a/b.go:9 +0x1'',
                        IsSource = False\<rparr>\<rparr>,
      at_line (tab # ''/a/b.go:9 +0x1'') [])"
    by code_simp
  have d: "unread (at_line (tab # ''/a/b.go:9 +0x1'') []) = []" by simp
  have e: "\<not> IsSource (currentEntry \<lparr>firstFunction' = ''main.bar'',
           fullStack' = ''main.bar()'' @ [newline] @ tab # ''/a/b.go:9 +0x1'' @ [newline],
           funcs = {''main.bar''},
           entries' = [\<lparr>FunctionCall = ''main.bar()'', Location = tab # ''/a/b.go:9 +0x1'',
                        IsSource = False\<rparr>],
           currentEntry = \<lparr>FunctionCall = ''main.bar()'', Location = tab # ''/a/b.go:9 +0x1'',
                        IsSource = False\<rparr>\<rparr>)"
    by simp
  have f: "''main.spawn'' \<noteq> []" by simp
  have g: "CHR '' '' \<notin> set ''main.spawn''" by simp
  have h: "''1'' \<noteq> []" by simp
  have i: "list_all is_digit ''1''" by (simp add: is_digit_def)
  have j: "digits_val ''1'' < 2 ^ 63" by (simp add: digits_val_def digit_val_def)
  have k: "tab # ''/a/b.go:20 +0x2'' \<noteq> []" by simp
  have l: "hd (tab # ''/a/b.go:20 +0x2'') = tab" by simp
  have m: "int (digits_val ''1'') = 1" by (simp add: digits_val_def digit_val_def)
  from creator_line_source_id [OF a b c d e f g h i j k l, of "[''goroutine 3 [select]:'']"]
  obtain s ss where r:
    "fst (ParseStack (''goroutine 2 [chan receive]:'' # [''main.bar()'', tab # ''/a/b.go:9 +0x1'']
             @ (''created by '' @ ''main.spawn'' @ '' in goroutine '' @ ''1'')
             # (tab # ''/a/b.go:20 +0x2'') # [''goroutine 3 [select]:'']))
        = s # ss"
    "id' s = 2" "SourceGoroutineID s = int (digits_val ''1'')"
    "TrimPrefix (FunctionCall (SourceEntry s)) ''created by ''
       = ''main.spawn'' @ '' in goroutine '' @ ''1''"
    "parseFuncName (''created by '' @ ''main.spawn'' @ '' in goroutine '' @ ''1'')
       = Inr (''main.spawn'', True)"
    by blast
  have "\<exists>s ss.
      fst (ParseStack (''goroutine 2 [chan receive]:'' # [''main.bar()'', tab # ''/a/b.go:9 +0x1'']
             @ (''created by '' @ ''main.spawn'' @ '' in goroutine '' @ ''1'')
             # (tab # ''/a/b.go:20 +0x2'') # [''goroutine 3 [select]:'']))
        = s # ss \<and>
      id' s = 2 \<and> SourceGoroutineID s = 1 \<and>
      TrimPrefix (FunctionCall (SourceEntry s)) ''created by '' = ''main.spawn in goroutine 1'' \<and>
      parseFuncName ''created by main.spawn in goroutine 1'' = Inr (''main.spawn'', True)"
    using r m by (intro exI [of _ s] exI [of _ ss]) simp
  with a b f g h i j show ?thesis by blast
qed

section \<open>A cleanup callback is refused before any sampling\<close>

text \<open>
  C8: with a cleanup callback in the options, \<open>Find\<close> and \<open>FindAndPrettyPrint\<close> return the
  configuration error at once, whatever the fuel: the only thing they have done is to
  read the calling goroutine's own stack for its id (which is taken to parse, as every
  dump of the runtime does). The set of all goroutines has not been sampled and \<open>retry\<close>
  has not been asked.
\<close>

theorem cleanup_refused_before_sampling:
  assumes "cleanup opts \<noteq> None" and "Current (current_dump H) = Inr c"
  shows "Find fuel H opts = Some (Inr (Some CleanupNotAllowed), [SampleCurrent]) \<and>
         FindAndPrettyPrint fuel L H opts = Some (Inr (Some CleanupNotAllowed), [SampleCurrent])"
  using assms by (simp add: Find_def FindAndPrettyPrint_def)

definition example_host :: host where
  "example_host =
     \<lparr>current_dump = [''goroutine 1 [running]:'', ''main.main()'', tab # ''/a/m.go:5 +0x1''],
      all_dumps = (\<lambda>k. [''goroutine 1 [running]:'', ''main.main()'', tab # ''/a/m.go:5 +0x1'',
                          [],
                          ''goroutine 7 [select]:'', ''main.leak()'', tab # ''/a/m.go:9 +0x1'',
                          ''created by main.main in goroutine 1'', tab # ''/a/m.go:4 +0x2'']),
      range_dependency = [7], range_roots = [1, 7], range_unvisited = [7, 1]\<rparr>"

definition example_opts :: opts where
  "example_opts =
     \<lparr>filter' = (\<lambda>s. False), filters = [], retry = (\<lambda>i. i < 2),
      cleanup = Some (\<lambda>code. ()), pretty = False\<rparr>"

theorem cleanup_refused_before_sampling_witness:
  "cleanup example_opts \<noteq> None \<and>
   map_sum id id' (Current (current_dump example_host)) = Inr 1 \<and>
   Find 0 example_host example_opts = Some (Inr (Some CleanupNotAllowed), [SampleCurrent]) \<and>
   FindAndPrettyPrint 0 plain example_host example_opts
     = Some (Inr (Some CleanupNotAllowed), [SampleCurrent])"
proof -
  have a: "cleanup example_opts \<noteq> None" by (simp add: example_opts_def)
  have b: "Current (current_dump example_host) =
     Inr \<lparr>id' = 1, state = ''running'', firstFunction = ''main.main'',
          allFunctions = {''main.main''},
          fullStack = ''main.main()'' @ [newline] @ tab # ''/a/m.go:5 +0x1'' @ [newline],
          entries = [\<lparr>FunctionCall = ''main.main()'', Location = tab # ''/a/m.go:5 +0x1'',
                      IsSource = False\<rparr>]\<rparr>"
    by code_simp
  show ?thesis
    using a cleanup_refused_before_sampling [OF a b, of 0 plain] by (simp add: b)
qed

end
